theory Spec2Isabelle
  imports Main
begin

section \<open>cache2go: an LRU cache with expiration (cache.go)\<close>

text \<open>
  The Go source keeps three views of one set of heap objects: the doubly linked list
  \<open>lruIndex\<close> of \<open>*list.Element\<close>, the slice \<open>ttlIndex\<close> of the same element
  pointers, and the map \<open>cache\<close> from a key to its element pointer. Every element
  points to one \<open>*entry\<close>, which \<open>Set\<close> mutates in place. The aliasing decides
  several properties, so the model has an explicit store: an element pointer is a
  natural number, \<open>elems\<close> maps it to the entry its \<open>Value\<close> points to (\<open>None\<close>:
  \<open>Value\<close> is nil), and \<open>nextElem\<close> is the allocator (Go never reuses the address of
  a reachable object).
\<close>

subsection \<open>Data\<close>

text \<open>\<open>interface{}\<close>: the nil interface (the zero value \<open>Get\<close> returns) or a payload.\<close>

datatype 'v iface = NilValue | Val 'v

text \<open>
  The run-time panics the source can raise. A method of \<open>*list.List\<close> called on a nil
  receiver is a panic in the model. (\<open>PushFront\<close>, \<open>Len\<close> and \<open>Back\<close> dereference the
  receiver at once; \<open>Remove\<close> and \<open>MoveToFront\<close> do so unless the element belongs to
  another list. A nil list beside a non-nil map is a state no function of the package
  produces, and no property below is about one.)
\<close>

datatype panic =
    NilPointerDereference  \<comment> \<open>a method of \<open>*list.List\<close> on a nil receiver\<close>
  | InterfaceConversion    \<comment> \<open>\<open>e.Value.(*entry)\<close> on a nil \<open>Value\<close>\<close>

text \<open>
  \<open>type entry struct { key string; value interface{}; timestamp time.Time }\<close>.
  The field \<open>value\<close> is written \<open>val\<close>. A \<open>time.Time\<close> is an instant in
  nanoseconds, a \<open>time.Duration\<close> a number of nanoseconds.
\<close>

record 'v entry =
  key :: string
  val :: "'v iface"
  timestamp :: int

text \<open>
  \<open>type Cache struct\<close>. The three reference fields may be nil (\<open>None\<close>), as in a
  zero-value \<open>Cache\<close>. The mutex is not a field of the model: every function below is
  one critical section of the source.
\<close>

record 'v Cache =
  maxEntries :: int
  lruIndex :: "nat list option"
  ttlIndex :: "nat list option"
  cache :: "(string \<rightharpoonup> nat) option"
  expiration :: int
  elems :: "nat \<rightharpoonup> 'v entry"
  nextElem :: nat

subsection \<open>container/list and the slice, as the source uses them\<close>

text \<open>
  A \<open>list.List\<close> is the sequence of its elements, front first. An element belongs
  to at most one list, and \<open>MoveToFront\<close> and \<open>Remove\<close> do nothing for an element
  that is not in the receiver (\<open>e.list != l\<close>).
\<close>

definition MoveToFront :: "nat list \<Rightarrow> nat \<Rightarrow> nat list" where
  "MoveToFront l e = (if e \<in> set l then e # remove1 e l else l)"

definition PushFront :: "nat list \<Rightarrow> nat \<Rightarrow> nat list" where
  "PushFront l e = e # l"

definition Back :: "nat list \<Rightarrow> nat option" where
  "Back l = (case l of [] \<Rightarrow> None | _ # _ \<Rightarrow> Some (last l))"

definition Remove :: "nat list \<Rightarrow> nat \<Rightarrow> nat list" where
  "Remove l e = remove1 e l"

text \<open>
  The loop of \<open>removeElement\<close> over \<open>c.ttlIndex\<close>: the first slot equal to \<open>e\<close> is
  cut out (\<open>copy\<close>, clear the last slot, reslice) and the loop breaks.
\<close>

fun sliceDelete :: "nat \<Rightarrow> nat list \<Rightarrow> nat list" where
  "sliceDelete e [] = []"
| "sliceDelete e (se # rest) = (if se = e then rest else se # sliceDelete e rest)"

text \<open>\<open>append(c.ttlIndex, e)\<close>; appending to a nil slice allocates.\<close>

definition sliceAppend :: "nat list option \<Rightarrow> nat \<Rightarrow> nat list" where
  "sliceAppend s e = (case s of None \<Rightarrow> [e] | Some q \<Rightarrow> q @ [e])"

subsection \<open>The operations\<close>

text \<open>\<open>New\<close>; the sweeper it starts when \<open>expire > 0\<close> is modelled below.\<close>

definition New :: "int \<Rightarrow> int \<Rightarrow> 'v Cache" where
  "New maxEnt expire =
     (let c = \<lparr>maxEntries = maxEnt, lruIndex = Some [], ttlIndex = None,
                cache = Some Map.empty, expiration = expire,
                elems = Map.empty, nextElem = 0\<rparr>
      in if expiration c > 0 then c\<lparr>ttlIndex := Some []\<rparr> else c)"

definition removeElement :: "'v Cache \<Rightarrow> nat \<Rightarrow> panic + 'v Cache" where
  "removeElement c e =
     (case lruIndex c of
        None \<Rightarrow> Inl NilPointerDereference
      | Some l \<Rightarrow>
          (let c1 = c\<lparr>lruIndex := Some (Remove l e)\<rparr>;
               c2 = (if expiration c1 > 0
                     then c1\<lparr>ttlIndex := map_option (sliceDelete e) (ttlIndex c1)\<rparr>
                     else c1)
           in case elems c2 e of
                None \<Rightarrow> Inr c2
              | Some kv \<Rightarrow>
                  (case cache c2 of
                     None \<Rightarrow> Inr c2
                   | Some m \<Rightarrow> Inr (c2\<lparr>cache := Some (m(key kv := None))\<rparr>))))"

definition removeOldest :: "'v Cache \<Rightarrow> panic + 'v Cache" where
  "removeOldest c =
     (if cache c = None then Inr c
      else case lruIndex c of
             None \<Rightarrow> Inl NilPointerDereference
           | Some l \<Rightarrow>
               (case Back l of
                  None \<Rightarrow> Inr c
                | Some e \<Rightarrow> removeElement c e))"

text \<open>
  \<open>Set\<close>; \<open>now\<close> is what \<open>time.Now()\<close> returns in the branch taken. The lazy
  initialisation comes first, then the hit branch (promote, overwrite the entry in
  place), else the insertion and the capacity check.
\<close>

definition Set :: "'v Cache \<Rightarrow> string \<Rightarrow> 'v iface \<Rightarrow> int \<Rightarrow> panic + 'v Cache" where
  "Set c0 k v now =
     (let (c, m) =
            (case cache c0 of
               None \<Rightarrow>
                 (let c1 = c0\<lparr>cache := Some Map.empty, lruIndex := Some []\<rparr>
                  in (if expiration c1 > 0 then c1\<lparr>ttlIndex := Some []\<rparr> else c1,
                      Map.empty))
             | Some m \<Rightarrow> (c0, m))
      in case m k of
           Some e \<Rightarrow>
             (case lruIndex c of
                None \<Rightarrow> Inl NilPointerDereference
              | Some l \<Rightarrow>
                  (case elems c e of
                     None \<Rightarrow> Inl InterfaceConversion
                   | Some en \<Rightarrow>
                       Inr (c\<lparr>lruIndex := Some (MoveToFront l e),
                              elems := (elems c)(e \<mapsto> en\<lparr>val := v, timestamp := now\<rparr>)\<rparr>)))
         | None \<Rightarrow>
             (case lruIndex c of
                None \<Rightarrow> Inl NilPointerDereference
              | Some l \<Rightarrow>
                  (let e = nextElem c;
                       c1 = c\<lparr>lruIndex := Some (PushFront l e),
                              elems := (elems c)(e \<mapsto> \<lparr>key = k, val = v, timestamp = now\<rparr>),
                              nextElem := Suc e\<rparr>;
                       c2 = (if expiration c1 > 0
                             then c1\<lparr>ttlIndex := Some (sliceAppend (ttlIndex c1) e)\<rparr>
                             else c1);
                       c3 = c2\<lparr>cache := Some (m(k \<mapsto> e))\<rparr>
                   in if maxEntries c3 \<noteq> 0 \<and> int (length (PushFront l e)) > maxEntries c3
                      then removeOldest c3
                      else Inr c3)))"

text \<open>\<open>Get\<close> returns the new state and the pair \<open>(value, ok)\<close>.\<close>

definition Get :: "'v Cache \<Rightarrow> string \<Rightarrow> panic + ('v Cache \<times> 'v iface \<times> bool)" where
  "Get c k =
     (case cache c of
        None \<Rightarrow> Inr (c, NilValue, False)
      | Some m \<Rightarrow>
          (case m k of
             Some e \<Rightarrow>
               (case lruIndex c of
                  None \<Rightarrow> Inl NilPointerDereference
                | Some l \<Rightarrow>
                    (case elems c e of
                       None \<Rightarrow> Inl InterfaceConversion
                     | Some en \<Rightarrow> Inr (c\<lparr>lruIndex := Some (MoveToFront l e)\<rparr>, val en, True)))
           | None \<Rightarrow> Inr (c, NilValue, False)))"

definition Delete :: "'v Cache \<Rightarrow> string \<Rightarrow> panic + 'v Cache" where
  "Delete c k =
     (case cache c of
        None \<Rightarrow> Inr c
      | Some m \<Rightarrow>
          (case m k of
             Some e \<Rightarrow> removeElement c e
           | None \<Rightarrow> Inr c))"

definition Len :: "'v Cache \<Rightarrow> panic + int" where
  "Len c =
     (case cache c of
        None \<Rightarrow> Inr 0
      | Some m \<Rightarrow>
          (case lruIndex c of
             None \<Rightarrow> Inl NilPointerDereference
           | Some l \<Rightarrow> Inr (int (length l))))"

definition Flush :: "'v Cache \<Rightarrow> 'v Cache" where
  "Flush c =
     (let c1 = c\<lparr>lruIndex := Some []\<rparr>;
          c2 = (if expiration c1 > 0 then c1\<lparr>ttlIndex := Some []\<rparr> else c1)
      in c2\<lparr>cache := Some Map.empty\<rparr>)"

subsection \<open>Time, and the sweeper\<close>

text \<open>
  \<open>Time.Add\<close>, \<open>Time.After\<close> and \<open>Time.Sub\<close>; \<open>Sub\<close> saturates at the bounds of
  \<open>time.Duration\<close> (an \<open>int64\<close>). \<open>time.Sleep d\<close> pauses for \<open>d\<close> and returns at
  once when \<open>d\<close> is zero or negative: \<open>pause d\<close> is the time it waits.
\<close>

definition Add :: "int \<Rightarrow> int \<Rightarrow> int" where
  "Add t d = t + d"

definition After :: "int \<Rightarrow> int \<Rightarrow> bool" where
  "After t u = (t > u)"

definition Sub :: "int \<Rightarrow> int \<Rightarrow> int" where
  "Sub t u =
     (let d = t - u
      in if d > 2 ^ 63 - 1 then 2 ^ 63 - 1 else if d < - (2 ^ 63) then - (2 ^ 63) else d)"

definition pause :: "int \<Rightarrow> int" where
  "pause d = (if d \<le> 0 then 0 else d)"

text \<open>
  One iteration of the loop of \<open>cleanExpired\<close> is up to two critical sections, and
  other goroutines may run between them. \<open>cleanExpired_peek\<close> is the read-locked
  section: \<open>None\<close> when the queue is empty, else the head element and the expiry
  instant computed from its entry.
\<close>

definition cleanExpired_peek :: "'v Cache \<Rightarrow> panic + (nat \<times> int) option" where
  "cleanExpired_peek c =
     (case ttlIndex c of
        None \<Rightarrow> Inr None
      | Some [] \<Rightarrow> Inr None
      | Some (e # _) \<Rightarrow>
          (case elems c e of
             None \<Rightarrow> Inl InterfaceConversion
           | Some en \<Rightarrow> Inr (Some (e, Add (timestamp en) (expiration c)))))"

text \<open>
  What the iteration does next, outside the locks: \<open>now1\<close> is the clock read by
  \<open>time.Now().After(exp)\<close>, \<open>now2\<close> the one read by \<open>time.Now().Sub(exp)\<close>.
  \<open>Removal e\<close> stands for the write-locked section, \<open>removeElement\<close> of the element
  peeked earlier, on the state the cache has by then.
\<close>

datatype action = Sleep int | Removal nat

definition cleanExpired_next :: "'v Cache \<Rightarrow> (nat \<times> int) option \<Rightarrow> int \<Rightarrow> int \<Rightarrow> action" where
  "cleanExpired_next c p now1 now2 =
     (case p of
        None \<Rightarrow> Sleep (expiration c)
      | Some (e, exp) \<Rightarrow> if After now1 exp then Removal e else Sleep (Sub now2 exp))"

subsection \<open>Histories\<close>

text \<open>
  A history is a sequence of critical sections on one cache: the public operations, and
  the sweeper's removal of an element it holds.
\<close>

datatype 'v op =
    OpSet string "'v iface" int
  | OpGet string
  | OpDelete string
  | OpFlush
  | OpSweep nat

fun step :: "'v Cache \<Rightarrow> 'v op \<Rightarrow> panic + 'v Cache" where
  "step c (OpSet k v now) = Set c k v now"
| "step c (OpGet k) = (case Get c k of Inl p \<Rightarrow> Inl p | Inr (c', _) \<Rightarrow> Inr c')"
| "step c (OpDelete k) = Delete c k"
| "step c OpFlush = Inr (Flush c)"
| "step c (OpSweep e) = removeElement c e"

fun run :: "'v Cache \<Rightarrow> 'v op list \<Rightarrow> panic + 'v Cache" where
  "run c [] = Inr c"
| "run c (x # xs) = (case step c x of Inl p \<Rightarrow> Inl p | Inr c' \<Rightarrow> run c' xs)"

subsection \<open>Predicates on a cache\<close>

definition absent :: "'v Cache \<Rightarrow> string \<Rightarrow> bool" where
  "absent c k = (case cache c of None \<Rightarrow> True | Some m \<Rightarrow> m k = None)"

definition entryKey :: "'v Cache \<Rightarrow> nat \<Rightarrow> string option" where
  "entryKey c e = map_option key (elems c e)"

text \<open>
  The structural invariant of an initialised cache. The list holds each element once;
  every element of the list is allocated and the map sends its key back to it; every
  key of the map leads to an element of the list that carries that key; and with
  expiration on, the queue holds the elements of the list in the order they were
  allocated (pointers grow with allocation).
\<close>

definition wellformed :: "'v Cache \<Rightarrow> bool" where
  "wellformed c =
     (case cache c of
        None \<Rightarrow> False
      | Some m \<Rightarrow>
          (case lruIndex c of
             None \<Rightarrow> False
           | Some l \<Rightarrow>
               distinct l \<and>
               (\<forall>e\<in>set l. e < nextElem c \<and>
                  (case elems c e of None \<Rightarrow> False | Some en \<Rightarrow> m (key en) = Some e)) \<and>
               (\<forall>k\<in>dom m. case m k of
                              None \<Rightarrow> False
                            | Some e \<Rightarrow> e \<in> set l \<and> entryKey c e = Some k) \<and>
               (0 < expiration c \<longrightarrow>
                  (case ttlIndex c of
                     None \<Rightarrow> False
                   | Some q \<Rightarrow> set q = set l \<and> sorted_wrt (<) q))))"

text \<open>
  The part of the invariant that every history keeps, stale removals by the sweeper
  included: all of \<open>wellformed\<close> but the clause that the map sends the key of every
  element of the list back to that element.
\<close>

definition linked :: "'v Cache \<Rightarrow> bool" where
  "linked c =
     (case cache c of
        None \<Rightarrow> False
      | Some m \<Rightarrow>
          (case lruIndex c of
             None \<Rightarrow> False
           | Some l \<Rightarrow>
               distinct l \<and>
               (\<forall>e\<in>set l. e < nextElem c \<and> elems c e \<noteq> None) \<and>
               (\<forall>k\<in>dom m. case m k of
                              None \<Rightarrow> False
                            | Some e \<Rightarrow> e \<in> set l \<and> entryKey c e = Some k) \<and>
               (0 < expiration c \<longrightarrow>
                  (case ttlIndex c of
                     None \<Rightarrow> False
                   | Some q \<Rightarrow> set q = set l \<and> sorted_wrt (<) q))))"

text \<open>
  What the capacity bound needs of a cache, whatever else happened to it: the list is no
  longer than \<open>maxEntries\<close>, and every element the map points to has an entry.
\<close>

definition bounded :: "'v Cache \<Rightarrow> bool" where
  "bounded c =
     (case cache c of
        None \<Rightarrow> False
      | Some m \<Rightarrow>
          (case lruIndex c of
             None \<Rightarrow> False
           | Some l \<Rightarrow> int (length l) \<le> maxEntries c \<and> ran m \<subseteq> dom (elems c)))"

subsection \<open>Intermediate states of \<open>Set\<close>\<close>

text \<open>
  Two states \<open>Set\<close> passes through, named so that the lemmas can speak of them:
  the cache after the lazy initialisation, and the cache after the insertion of a new
  key (element pushed, queue extended, map updated) and before the capacity check.
\<close>

definition initialise :: "'v Cache \<Rightarrow> 'v Cache" where
  "initialise c =
     c\<lparr>cache := Some Map.empty, lruIndex := Some [],
       ttlIndex := (if 0 < expiration c then Some [] else ttlIndex c)\<rparr>"

definition inserted ::
  "'v Cache \<Rightarrow> (string \<rightharpoonup> nat) \<Rightarrow> nat list \<Rightarrow> string \<Rightarrow> 'v iface \<Rightarrow> int \<Rightarrow> 'v Cache" where
  "inserted c m l k v now =
     c\<lparr>lruIndex := Some (nextElem c # l),
       elems := (elems c)(nextElem c \<mapsto> \<lparr>key = k, val = v, timestamp = now\<rparr>),
       nextElem := Suc (nextElem c),
       ttlIndex := (if 0 < expiration c then Some (sliceAppend (ttlIndex c) (nextElem c))
                    else ttlIndex c),
       cache := Some (m(k \<mapsto> nextElem c))\<rparr>"

subsection \<open>Example states\<close>

text \<open>
  \<open>cache_ab\<close> is the cache after \<open>New(2, 10)\<close>, \<open>Set("a", 1)\<close> at time 0 and
  \<open>Set("b", 2)\<close> at time 1 (lemma \<open>cache_ab_history\<close>); \<open>zero_cache\<close> is the zero
  value \<open>Cache{}\<close>; \<open>cache_readded\<close> is the cache after \<open>New(0, 10)\<close>,
  \<open>Set("a", 1)\<close> at time 0, \<open>Delete("a")\<close> and \<open>Set("a", 2)\<close> at time 11 (lemma
  \<open>cache_readded_history\<close>): element 0 is unlinked, element 1 carries the key.
\<close>

definition cache_ab :: "nat Cache" where
  "cache_ab =
     \<lparr>maxEntries = 2, lruIndex = Some [1, 0], ttlIndex = Some [0, 1],
      cache = Some [''a'' \<mapsto> 0, ''b'' \<mapsto> 1], expiration = 10,
      elems = [0 \<mapsto> \<lparr>key = ''a'', val = Val 1, timestamp = 0\<rparr>,
               1 \<mapsto> \<lparr>key = ''b'', val = Val 2, timestamp = 1\<rparr>],
      nextElem = 2\<rparr>"

definition zero_cache :: "nat Cache" where
  "zero_cache =
     \<lparr>maxEntries = 0, lruIndex = None, ttlIndex = None, cache = None, expiration = 0,
      elems = Map.empty, nextElem = 0\<rparr>"

definition cache_readded :: "nat Cache" where
  "cache_readded =
     \<lparr>maxEntries = 0, lruIndex = Some [1], ttlIndex = Some [1],
      cache = Some [''a'' \<mapsto> 1], expiration = 10,
      elems = [0 \<mapsto> \<lparr>key = ''a'', val = Val 1, timestamp = 0\<rparr>,
               1 \<mapsto> \<lparr>key = ''a'', val = Val 2, timestamp = 11\<rparr>],
      nextElem = 2\<rparr>"

section \<open>Properties\<close>

subsection \<open>Library of the model\<close>

lemma sliceDelete_remove1: "sliceDelete e q = remove1 e q"
  by (induction q) auto

subsection \<open>The invariant and its preservation\<close>

lemma wellformed_iff:
  "wellformed c \<longleftrightarrow>
     (\<exists>m l. cache c = Some m \<and> lruIndex c = Some l \<and> distinct l \<and>
        (\<forall>e\<in>set l. e < nextElem c \<and> (\<exists>en. elems c e = Some en \<and> m (key en) = Some e)) \<and>
        (\<forall>k e. m k = Some e \<longrightarrow> e \<in> set l \<and> (\<exists>en. elems c e = Some en \<and> key en = k)) \<and>
        (0 < expiration c \<longrightarrow> (\<exists>q. ttlIndex c = Some q \<and> set q = set l \<and> sorted_wrt (<) q)))"
  unfolding wellformed_def entryKey_def
  by (auto split: option.splits simp: dom_def) 

lemma wellformed_New: "wellformed (New mx ex)"
  by (simp add: wellformed_iff New_def Let_def)

lemma sorted_wrt_less_remove1: "sorted_wrt (<) q \<Longrightarrow> sorted_wrt (<) (remove1 (e::nat) q)"
  by (induction q) (auto dest: notin_set_remove1)

lemma sorted_wrt_less_distinct: "sorted_wrt (<) q \<Longrightarrow> distinct (q::nat list)"
  by (induction q) auto

lemma remove1_last: "distinct l \<Longrightarrow> l \<noteq> [] \<Longrightarrow> remove1 (last l) l = butlast l"
  by (induction l) auto

lemma sliceDelete_eq: "sliceDelete e = remove1 e"
  by (rule ext) (rule sliceDelete_remove1)

lemma removeElement_live:
  "cache c = Some m \<Longrightarrow> lruIndex c = Some l \<Longrightarrow> elems c e = Some en \<Longrightarrow>
   removeElement c e =
     Inr (c\<lparr>lruIndex := Some (remove1 e l),
            ttlIndex := (if 0 < expiration c then map_option (remove1 e) (ttlIndex c) else ttlIndex c),
            cache := Some (m(key en := None))\<rparr>)"
  by (simp add: removeElement_def Remove_def Let_def sliceDelete_eq)

lemma wellformed_removeElement:
  assumes wf: "wellformed c" and l: "lruIndex c = Some l" and e: "e \<in> set l"
  shows "\<exists>c'. removeElement c e = Inr c' \<and> wellformed c' \<and> lruIndex c' = Some (remove1 e l)"
proof -
  from wf l obtain m where m: "cache c = Some m"
    and d: "distinct l"
    and a: "\<forall>e\<in>set l. e < nextElem c \<and> (\<exists>en. elems c e = Some en \<and> m (key en) = Some e)"
    and b: "\<forall>k e. m k = Some e \<longrightarrow> e \<in> set l \<and> (\<exists>en. elems c e = Some en \<and> key en = k)"
    and t: "0 < expiration c \<longrightarrow> (\<exists>q. ttlIndex c = Some q \<and> set q = set l \<and> sorted_wrt (<) q)"
    by (auto simp: wellformed_iff)
  from a e obtain en where en: "elems c e = Some en" "m (key en) = Some e" by blast
  let ?c' = "c\<lparr>lruIndex := Some (remove1 e l),
            ttlIndex := (if 0 < expiration c then map_option (remove1 e) (ttlIndex c) else ttlIndex c),
            cache := Some (m(key en := None))\<rparr>"
  have r: "removeElement c e = Inr ?c'" by (rule removeElement_live[OF m l en(1)])
  have A: "\<forall>x\<in>set (remove1 e l). x < nextElem c \<and>
            (\<exists>en'. elems c x = Some en' \<and> (m(key en := None)) (key en') = Some x)"
  proof
    fix x assume "x \<in> set (remove1 e l)"
    with d have x: "x \<in> set l" "x \<noteq> e" by auto
    with a obtain en' where en': "x < nextElem c" "elems c x = Some en'" "m (key en') = Some x"
      by blast
    with en x have "key en' \<noteq> key en" by auto
    with en' show "x < nextElem c \<and>
            (\<exists>en'. elems c x = Some en' \<and> (m(key en := None)) (key en') = Some x)" by simp
  qed
  have B: "\<forall>k x. (m(key en := None)) k = Some x \<longrightarrow>
            x \<in> set (remove1 e l) \<and> (\<exists>en'. elems c x = Some en' \<and> key en' = k)"
  proof (intro allI impI)
    fix k x assume "(m(key en := None)) k = Some x"
    then have k: "k \<noteq> key en" "m k = Some x" by (auto split: if_splits)
    with b obtain en' where en': "x \<in> set l" "elems c x = Some en'" "key en' = k" by blast
    with k en have "x \<noteq> e" by auto
    with en' d show "x \<in> set (remove1 e l) \<and> (\<exists>en'. elems c x = Some en' \<and> key en' = k)"
      by simp
  qed
  have C: "0 < expiration c \<longrightarrow>
            (\<exists>q. map_option (remove1 e) (ttlIndex c) = Some q \<and> set q = set (remove1 e l) \<and>
                 sorted_wrt (<) q)"
    using t d by (auto simp: sorted_wrt_less_remove1 sorted_wrt_less_distinct)
  have "wellformed ?c'"
    unfolding wellformed_iff using A B C d by simp
  with r show ?thesis by simp
qed

lemma Set_nil: "cache c = None \<Longrightarrow> Set c k v now = Set (initialise c) k v now"
  by (simp add: Set_def initialise_def Let_def)

lemma Set_hit:
  "cache c = Some m \<Longrightarrow> m k = Some e \<Longrightarrow> lruIndex c = Some l \<Longrightarrow> elems c e = Some en \<Longrightarrow>
   Set c k v now =
     Inr (c\<lparr>lruIndex := Some (MoveToFront l e),
            elems := (elems c)(e \<mapsto> en\<lparr>val := v, timestamp := now\<rparr>)\<rparr>)"
  by (simp add: Set_def)

lemma Set_miss:
  "cache c = Some m \<Longrightarrow> m k = None \<Longrightarrow> lruIndex c = Some l \<Longrightarrow>
   Set c k v now =
     (if maxEntries c \<noteq> 0 \<and> int (length l) + 1 > maxEntries c
      then removeOldest (inserted c m l k v now) else Inr (inserted c m l k v now))"
  by (simp add: Set_def inserted_def Let_def PushFront_def)

lemma wellformed_initialise: "cache c = None \<Longrightarrow> wellformed (initialise c)"
  by (simp add: wellformed_iff initialise_def)

lemma set_MoveToFront: "set (MoveToFront l e) = set l"
proof (cases "e \<in> set l")
  case True
  have "set (remove1 e l) \<subseteq> set l" by (rule set_remove1_subset)
  moreover have "\<And>x. x \<in> set l \<Longrightarrow> x \<noteq> e \<Longrightarrow> x \<in> set (remove1 e l)" by simp
  ultimately have "insert e (set (remove1 e l)) = set l" using True by blast
  with True show ?thesis by (simp add: MoveToFront_def)
next
  case False
  then show ?thesis by (simp add: MoveToFront_def)
qed

lemma distinct_MoveToFront: "distinct l \<Longrightarrow> distinct (MoveToFront l e)"
  by (simp add: MoveToFront_def)

lemma length_MoveToFront: "length (MoveToFront l e) = length l"
proof (cases "e \<in> set l")
  case True
  then have "0 < length l" by (rule length_pos_if_in_set)
  with True show ?thesis by (simp add: MoveToFront_def length_remove1)
next
  case False
  then show ?thesis by (simp add: MoveToFront_def)
qed

lemma wellformed_promote:
  "wellformed c \<Longrightarrow> lruIndex c = Some l \<Longrightarrow> wellformed (c\<lparr>lruIndex := Some (MoveToFront l e)\<rparr>)"
  by (auto simp: wellformed_iff set_MoveToFront distinct_MoveToFront)

lemma wellformed_overwrite:
  assumes wf: "wellformed c" and en: "elems c e = Some en"
  shows "wellformed (c\<lparr>elems := (elems c)(e \<mapsto> en\<lparr>val := v, timestamp := now\<rparr>)\<rparr>)"
proof -
  from wf obtain m l where m: "cache c = Some m" and l: "lruIndex c = Some l" and d: "distinct l"
    and a: "\<forall>e\<in>set l. e < nextElem c \<and> (\<exists>en. elems c e = Some en \<and> m (key en) = Some e)"
    and b: "\<forall>k e. m k = Some e \<longrightarrow> e \<in> set l \<and> (\<exists>en. elems c e = Some en \<and> key en = k)"
    and t: "0 < expiration c \<longrightarrow> (\<exists>q. ttlIndex c = Some q \<and> set q = set l \<and> sorted_wrt (<) q)"
    by (auto simp: wellformed_iff)
  let ?h = "(elems c)(e \<mapsto> en\<lparr>val := v, timestamp := now\<rparr>)"
  have A: "\<forall>x\<in>set l. x < nextElem c \<and> (\<exists>en'. ?h x = Some en' \<and> m (key en') = Some x)"
  proof
    fix x assume "x \<in> set l"
    with a obtain en' where "x < nextElem c" "elems c x = Some en'" "m (key en') = Some x"
      by blast
    with en show "x < nextElem c \<and> (\<exists>en'. ?h x = Some en' \<and> m (key en') = Some x)"
      by (cases "x = e") auto
  qed
  have B: "\<forall>k x. m k = Some x \<longrightarrow> x \<in> set l \<and> (\<exists>en'. ?h x = Some en' \<and> key en' = k)"
  proof (intro allI impI)
    fix k x assume "m k = Some x"
    with b obtain en' where "x \<in> set l" "elems c x = Some en'" "key en' = k" by blast
    with en show "x \<in> set l \<and> (\<exists>en'. ?h x = Some en' \<and> key en' = k)"
      by (cases "x = e") auto
  qed
  show ?thesis unfolding wellformed_iff using m l d A B t by simp
qed

lemma wellformed_inserted:
  assumes wf: "wellformed c" and m: "cache c = Some m" and l: "lruIndex c = Some l"
    and k: "m k = None"
  shows "wellformed (inserted c m l k v now)"
proof -
  from wf m l have d: "distinct l"
    and a: "\<forall>e\<in>set l. e < nextElem c \<and> (\<exists>en. elems c e = Some en \<and> m (key en) = Some e)"
    and b: "\<forall>k e. m k = Some e \<longrightarrow> e \<in> set l \<and> (\<exists>en. elems c e = Some en \<and> key en = k)"
    and t: "0 < expiration c \<longrightarrow> (\<exists>q. ttlIndex c = Some q \<and> set q = set l \<and> sorted_wrt (<) q)"
    by (auto simp: wellformed_iff)
  let ?n = "nextElem c"
  let ?en = "\<lparr>key = k, val = v, timestamp = now\<rparr>"
  from a have fresh: "?n \<notin> set l" by auto
  have A: "\<forall>e\<in>set (?n # l). e < Suc ?n \<and>
            (\<exists>en. ((elems c)(?n \<mapsto> ?en)) e = Some en \<and> (m(k \<mapsto> ?n)) (key en) = Some e)"
  proof
    fix e assume e: "e \<in> set (?n # l)"
    show "e < Suc ?n \<and>
            (\<exists>en. ((elems c)(?n \<mapsto> ?en)) e = Some en \<and> (m(k \<mapsto> ?n)) (key en) = Some e)"
    proof (cases "e = ?n")
      case True
      then show ?thesis by simp
    next
      case False
      with e have "e \<in> set l" by simp
      with a obtain en where en: "e < ?n" "elems c e = Some en" "m (key en) = Some e" by blast
      with k have "key en \<noteq> k" by auto
      with en False show ?thesis by simp
    qed
  qed
  have B: "\<forall>k' e. (m(k \<mapsto> ?n)) k' = Some e \<longrightarrow>
            e \<in> set (?n # l) \<and> (\<exists>en. ((elems c)(?n \<mapsto> ?en)) e = Some en \<and> key en = k')"
  proof (intro allI impI)
    fix k' e assume h: "(m(k \<mapsto> ?n)) k' = Some e"
    show "e \<in> set (?n # l) \<and> (\<exists>en. ((elems c)(?n \<mapsto> ?en)) e = Some en \<and> key en = k')"
    proof (cases "k' = k")
      case True
      with h show ?thesis by simp
    next
      case False
      with h have "m k' = Some e" by simp
      with b obtain en where en: "e \<in> set l" "elems c e = Some en" "key en = k'" by blast
      with fresh have "e \<noteq> ?n" by auto
      with en show ?thesis by simp
    qed
  qed
  have C: "0 < expiration c \<longrightarrow>
            (\<exists>q. Some (sliceAppend (ttlIndex c) ?n) = Some q \<and> set q = set (?n # l) \<and>
                 sorted_wrt (<) q)"
    using t a by (auto simp: sliceAppend_def sorted_wrt_append)
  show ?thesis
    unfolding wellformed_iff inserted_def using A B C d fresh by simp
qed

lemma removeOldest_nonempty:
  "cache c = Some m \<Longrightarrow> lruIndex c = Some l \<Longrightarrow> l \<noteq> [] \<Longrightarrow>
   removeOldest c = removeElement c (last l)"
  by (cases l) (simp_all add: removeOldest_def Back_def)

lemma inserted_fields:
  "cache (inserted c m l k v now) = Some (m(k \<mapsto> nextElem c))"
  "lruIndex (inserted c m l k v now) = Some (nextElem c # l)"
  "maxEntries (inserted c m l k v now) = maxEntries c"
  "expiration (inserted c m l k v now) = expiration c"
  "elems (inserted c m l k v now) = (elems c)(nextElem c \<mapsto> \<lparr>key = k, val = v, timestamp = now\<rparr>)"
  "nextElem (inserted c m l k v now) = Suc (nextElem c)"
  by (simp_all add: inserted_def)

lemma wellformed_Set_init:
  assumes wf: "wellformed c"
  shows "\<exists>c'. Set c k v now = Inr c' \<and> wellformed c'"
proof -
  from wf obtain m l where m: "cache c = Some m" and l: "lruIndex c = Some l"
    and a: "\<forall>e\<in>set l. e < nextElem c \<and> (\<exists>en. elems c e = Some en \<and> m (key en) = Some e)"
    and b: "\<forall>k e. m k = Some e \<longrightarrow> e \<in> set l \<and> (\<exists>en. elems c e = Some en \<and> key en = k)"
    by (auto simp: wellformed_iff)
  show ?thesis
  proof (cases "m k")
    case (Some e)
    with b obtain en where en: "elems c e = Some en" by blast
    let ?c1 = "c\<lparr>lruIndex := Some (MoveToFront l e)\<rparr>"
    have "wellformed ?c1" by (rule wellformed_promote[OF wf l])
    moreover have "elems ?c1 e = Some en" using en by simp
    ultimately have "wellformed (?c1\<lparr>elems := (elems ?c1)(e \<mapsto> en\<lparr>val := v, timestamp := now\<rparr>)\<rparr>)"
      by (rule wellformed_overwrite)
    with Set_hit[OF m Some l en, of v now] show ?thesis by simp
  next
    case None
    let ?c3 = "inserted c m l k v now"
    have wf3: "wellformed ?c3" by (rule wellformed_inserted[OF wf m l None])
    show ?thesis
    proof (cases "maxEntries c \<noteq> 0 \<and> int (length l) + 1 > maxEntries c")
      case True
      have "removeOldest ?c3 = removeElement ?c3 (last (nextElem c # l))"
        by (rule removeOldest_nonempty[where m="m(k \<mapsto> nextElem c)"]) (simp_all add: inserted_fields)
      moreover have "\<exists>c'. removeElement ?c3 (last (nextElem c # l)) = Inr c' \<and> wellformed c'
                 \<and> lruIndex c' = Some (remove1 (last (nextElem c # l)) (nextElem c # l))"
        by (rule wellformed_removeElement[OF wf3]) (simp_all add: inserted_fields)
      ultimately show ?thesis using Set_miss[OF m None l, of v now] True by auto
    next
      case False
      with Set_miss[OF m None l, of v now] wf3 show ?thesis by auto
    qed
  qed
qed

lemma wellformed_Set:
  assumes "wellformed c \<or> cache c = None"
  shows "\<exists>c'. Set c k v now = Inr c' \<and> wellformed c'"
proof (cases "cache c")
  case None
  then have "wellformed (initialise c)" by (rule wellformed_initialise)
  then show ?thesis using Set_nil[OF None] wellformed_Set_init by metis
next
  case (Some m)
  with assms have "wellformed c" by simp
  then show ?thesis by (rule wellformed_Set_init)
qed

lemma wellformed_Get:
  assumes wf: "wellformed c"
  shows "\<exists>c' r. Get c k = Inr (c', r) \<and> wellformed c'"
proof -
  from wf obtain m l where m: "cache c = Some m" and l: "lruIndex c = Some l"
    and b: "\<forall>k e. m k = Some e \<longrightarrow> e \<in> set l \<and> (\<exists>en. elems c e = Some en \<and> key en = k)"
    by (auto simp: wellformed_iff)
  show ?thesis
  proof (cases "m k")
    case None
    with m wf show ?thesis by (auto simp: Get_def)
  next
    case (Some e)
    with b obtain en where en: "elems c e = Some en" by blast
    from wellformed_promote[OF wf l, of e] m l Some en show ?thesis by (auto simp: Get_def)
  qed
qed

lemma wellformed_Delete:
  assumes wf: "wellformed c"
  shows "\<exists>c'. Delete c k = Inr c' \<and> wellformed c'"
proof -
  from wf obtain m l where m: "cache c = Some m" and l: "lruIndex c = Some l"
    and b: "\<forall>k e. m k = Some e \<longrightarrow> e \<in> set l \<and> (\<exists>en. elems c e = Some en \<and> key en = k)"
    by (auto simp: wellformed_iff)
  show ?thesis
  proof (cases "m k")
    case None
    with m wf show ?thesis by (simp add: Delete_def)
  next
    case (Some e)
    with b have "e \<in> set l" by blast
    from wellformed_removeElement[OF wf l this] m Some show ?thesis by (auto simp: Delete_def)
  qed
qed

lemma wellformed_Flush: "wellformed (Flush c)"
  by (simp add: wellformed_iff Flush_def Let_def)

lemma wellformed_sweep_head:
  assumes wf: "wellformed c" and t: "0 < expiration c" and p: "cleanExpired_peek c = Inr (Some (e, x))"
  shows "\<exists>c'. removeElement c e = Inr c' \<and> wellformed c'"
proof -
  from wf t obtain l q where l: "lruIndex c = Some l" and q: "ttlIndex c = Some q" "set q = set l"
    by (auto simp: wellformed_iff)
  from p q have "e \<in> set q"
    by (cases q) (auto simp: cleanExpired_peek_def split: option.splits)
  with q have "e \<in> set l" by simp
  from wellformed_removeElement[OF wf l this] show ?thesis by blast
qed

lemma wellformed_step:
  assumes wf: "wellformed c"
    and live: "case x of OpSweep e \<Rightarrow> (case lruIndex c of None \<Rightarrow> False | Some l \<Rightarrow> e \<in> set l)
               | _ \<Rightarrow> True"
  shows "\<exists>c'. step c x = Inr c' \<and> wellformed c'"
proof (cases x)
  case (OpSet k v now)
  with wellformed_Set[of c k v now] wf show ?thesis by simp
next
  case (OpGet k)
  with wellformed_Get[OF wf, of k] show ?thesis by auto
next
  case (OpDelete k)
  with wellformed_Delete[OF wf, of k] show ?thesis by simp
next
  case OpFlush
  then show ?thesis by (simp add: wellformed_Flush)
next
  case (OpSweep e)
  with live obtain l where l: "lruIndex c = Some l" and e: "e \<in> set l"
    by (auto split: option.splits)
  from wellformed_removeElement[OF wf l e] OpSweep show ?thesis by auto
qed

lemma wellformed_same_keys:
  assumes "wellformed c" and "cache c = Some m" and "lruIndex c = Some l"
  shows "dom m = {k. \<exists>e\<in>set l. entryKey c e = Some k}"
  using assms unfolding wellformed_iff entryKey_def
  by (fastforce simp: dom_def)

lemma wellformed_queue:
  assumes "wellformed c" and "0 < expiration c" and "lruIndex c = Some l"
  shows "\<exists>q. ttlIndex c = Some q \<and> set q = set l \<and> distinct q \<and> sorted_wrt (<) q"
  using assms unfolding wellformed_iff by (auto simp: sorted_wrt_less_distinct)

lemma Len_eq: "cache c = Some m \<Longrightarrow> lruIndex c = Some l \<Longrightarrow> Len c = Inr (int (length l))"
  by (simp add: Len_def)

subsection \<open>Set on a key that is present\<close>

text \<open>
  Claim C6. For a key already present, \<open>Set\<close> overwrites the value and the timestamp
  of that key's entry in place and moves its element to the front of the recency list.
  Nothing else changes: the number of entries is the same (no eviction, whatever the
  capacity), the expiry queue is the same slice (the entry keeps its position), the map
  is the same, and every other entry is untouched.
\<close>

theorem Set_existing_key:
  assumes wf: "wellformed c" and m: "cache c = Some m" and k: "m k = Some e"
  shows "\<exists>c' l en. Set c k v now = Inr c' \<and> lruIndex c = Some l \<and> elems c e = Some en \<and>
           elems c' e = Some (en\<lparr>val := v, timestamp := now\<rparr>) \<and>
           lruIndex c' = Some (e # remove1 e l) \<and>
           Len c' = Len c \<and>
           ttlIndex c' = ttlIndex c \<and>
           cache c' = cache c \<and>
           (\<forall>e'. e' \<noteq> e \<longrightarrow> elems c' e' = elems c e') \<and>
           maxEntries c' = maxEntries c \<and> expiration c' = expiration c \<and>
           nextElem c' = nextElem c"
proof -
  from wf m obtain l where l: "lruIndex c = Some l"
    and b: "\<forall>k e. m k = Some e \<longrightarrow> e \<in> set l \<and> (\<exists>en. elems c e = Some en \<and> key en = k)"
    by (auto simp: wellformed_iff)
  from b k obtain en where e: "e \<in> set l" and en: "elems c e = Some en" by blast
  from e have len: "length (e # remove1 e l) = length l"
    using length_MoveToFront[of l e] by (simp add: MoveToFront_def)
  show ?thesis
    using Set_hit[OF m k l en, of v now] l en e m len
    by (simp add: MoveToFront_def Len_def)
qed

lemma cache_ab_history:
  "run (New 2 10) [OpSet ''a'' (Val 1) 0, OpSet ''b'' (Val 2) 1] = Inr cache_ab"
  by (simp add: New_def Set_def Let_def PushFront_def sliceAppend_def cache_ab_def fun_upd_twist)

lemma wellformed_cache_ab: "wellformed cache_ab"
  by (auto simp: wellformed_def cache_ab_def entryKey_def)

theorem Set_existing_key_witness:
  "wellformed cache_ab \<and> cache cache_ab = Some [''a'' \<mapsto> 0, ''b'' \<mapsto> 1] \<and>
   (\<exists>c'. Set cache_ab ''a'' (Val 7) 9 = Inr c' \<and>
         elems c' 0 = Some \<lparr>key = ''a'', val = Val 7, timestamp = 9\<rparr> \<and>
         lruIndex c' = Some [0, 1] \<and> Len c' = Inr 2 \<and> ttlIndex c' = Some [0, 1] \<and>
         elems c' 1 = elems cache_ab 1)"
proof -
  have m: "cache cache_ab = Some [''a'' \<mapsto> 0, ''b'' \<mapsto> 1]" by (simp add: cache_ab_def)
  have k: "[''a'' \<mapsto> 0, ''b'' \<mapsto> (1::nat)] ''a'' = Some 0" by simp
  from Set_existing_key[OF wellformed_cache_ab m k, of "Val 7" 9]
  show ?thesis using wellformed_cache_ab by (auto simp: cache_ab_def Len_def)
qed

subsection \<open>Flush\<close>

text \<open>
  Claim C9. After \<open>Flush\<close>, whatever the cache held, \<open>Len\<close> is 0 and \<open>Get\<close> of any
  key returns the zero value and \<open>false\<close>.
\<close>

theorem Flush_empties:
  "Len (Flush c) = Inr 0 \<and> Get (Flush c) k = Inr (Flush c, NilValue, False)"
  by (simp add: Len_def Flush_def Get_def Let_def)

subsection \<open>Absent keys\<close>

text \<open>
  Claim C8. For a key absent from the cache, \<open>Get\<close> returns the zero value and
  \<open>false\<close>, without a panic and without changing the state, and \<open>Delete\<close> returns
  without a panic and leaves the state unchanged.
\<close>

theorem miss_is_noop:
  assumes "absent c k"
  shows "Get c k = Inr (c, NilValue, False) \<and> Delete c k = Inr c"
  using assms by (auto simp: absent_def Get_def Delete_def split: option.splits)

theorem miss_is_noop_witness:
  "absent cache_ab ''z'' \<and> Get cache_ab ''z'' = Inr (cache_ab, NilValue, False) \<and>
   Delete cache_ab ''z'' = Inr cache_ab"
proof -
  have a: "absent cache_ab ''z''" by (simp add: absent_def cache_ab_def)
  from miss_is_noop[OF a] a show ?thesis by simp
qed

subsection \<open>The zero-value cache\<close>

text \<open>
  Claim C10. On a \<open>Cache\<close> whose map is nil, no operation panics: \<open>Get\<close> returns the
  zero value and \<open>false\<close>, \<open>Delete\<close> does nothing, \<open>Len\<close> is 0, \<open>Flush\<close> allocates
  empty structures, and \<open>Set\<close> allocates the map, the list and (with expiration on) the
  queue and then inserts the entry. With a negative \<open>maxEntries\<close> the capacity check
  then removes the entry it has just inserted.
\<close>

theorem zero_value_total:
  assumes "cache c = None"
  shows "Get c k = Inr (c, NilValue, False) \<and> Delete c k = Inr c \<and> Len c = Inr 0 \<and>
         cache (Flush c) = Some Map.empty \<and> lruIndex (Flush c) = Some [] \<and>
         Set c k v now =
           (if maxEntries c \<noteq> 0 \<and> maxEntries c < 1
            then Inr (c\<lparr>cache := Some Map.empty, lruIndex := Some [],
                         ttlIndex := (if 0 < expiration c then Some [] else ttlIndex c),
                         elems := (elems c)(nextElem c \<mapsto> \<lparr>key = k, val = v, timestamp = now\<rparr>),
                         nextElem := Suc (nextElem c)\<rparr>)
            else Inr (c\<lparr>cache := Some [k \<mapsto> nextElem c], lruIndex := Some [nextElem c],
                         ttlIndex := (if 0 < expiration c then Some [nextElem c] else ttlIndex c),
                         elems := (elems c)(nextElem c \<mapsto> \<lparr>key = k, val = v, timestamp = now\<rparr>),
                         nextElem := Suc (nextElem c)\<rparr>))"
  using assms
  by (simp add: Get_def Delete_def Len_def Flush_def Set_def Let_def PushFront_def
      sliceAppend_def removeOldest_def removeElement_def Back_def Remove_def)

theorem zero_value_total_witness:
  "cache zero_cache = None \<and>
   Get zero_cache ''a'' = Inr (zero_cache, NilValue, False) \<and>
   Delete zero_cache ''a'' = Inr zero_cache \<and> Len zero_cache = Inr 0 \<and>
   Set zero_cache ''a'' (Val 1) 5 =
     Inr \<lparr>maxEntries = 0, lruIndex = Some [0], ttlIndex = None, cache = Some [''a'' \<mapsto> 0],
          expiration = 0, elems = [0 \<mapsto> \<lparr>key = ''a'', val = Val 1, timestamp = 5\<rparr>],
          nextElem = 1\<rparr>"
proof -
  have z: "cache zero_cache = None" by (simp add: zero_cache_def)
  from zero_value_total[OF z, of "''a''" "Val 1" 5] z show ?thesis
    by (simp add: zero_cache_def)
qed

subsection \<open>Write, then read\<close>

text \<open>
  With a negative \<open>maxEntries\<close> the capacity check of \<open>Set\<close> always fires, and on an
  empty cache it removes the entry just inserted.
\<close>

lemma negative_capacity_evicts_own_entry:
  "\<exists>c1. Set (New (- 1) 0) ''a'' (Val (1::nat)) 0 = Inr c1 \<and> Len c1 = Inr 0 \<and>
        Get c1 ''a'' = Inr (c1, NilValue, False)"
  by (simp add: New_def Set_def Let_def PushFront_def Get_def Len_def
      removeOldest_def Back_def removeElement_def Remove_def)

text \<open>
  On a well-formed or zero-value cache whose capacity is not negative, \<open>Set k v\<close>
  followed at once by \<open>Get k\<close> returns \<open>(v, true)\<close>.
\<close>

lemma Set_then_Get:
  assumes wf: "wellformed c \<or> cache c = None" and cap: "0 \<le> maxEntries c"
  shows "\<exists>c' c''. Set c k v now = Inr c' \<and> Get c' k = Inr (c'', v, True)"
proof -
  have main: "\<exists>c' c''. Set c k v now = Inr c' \<and> Get c' k = Inr (c'', v, True)"
    if wf: "wellformed c" and cap: "0 \<le> maxEntries c" for c :: "'a Cache"
  proof -
    from wf obtain m l where m: "cache c = Some m" and l: "lruIndex c = Some l"
      and a: "\<forall>e\<in>set l. e < nextElem c \<and> (\<exists>en. elems c e = Some en \<and> m (key en) = Some e)"
      and b: "\<forall>k e. m k = Some e \<longrightarrow> e \<in> set l \<and> (\<exists>en. elems c e = Some en \<and> key en = k)"
      by (auto simp: wellformed_iff)
    show ?thesis
    proof (cases "m k")
      case (Some e)
      with b obtain en where en: "elems c e = Some en" by blast
      from Set_hit[OF m Some l en, of v now] m Some show ?thesis by (simp add: Get_def)
    next
      case None
      let ?n = "nextElem c"
      let ?c3 = "inserted c m l k v now"
      show ?thesis
      proof (cases "maxEntries c \<noteq> 0 \<and> int (length l) + 1 > maxEntries c")
        case False
        then have "Set c k v now = Inr ?c3"
          by (subst Set_miss[OF m None l]) (rule if_not_P)
        then show ?thesis by (simp add: Get_def inserted_def)
      next
        case True
        then have S: "Set c k v now = removeOldest ?c3"
          by (subst Set_miss[OF m None l]) (rule if_P)
        from True cap have ne: "l \<noteq> []" by auto
        then have "last l \<in> set l" by simp
        with a obtain en where en: "elems c (last l) = Some en" "m (key en) = Some (last l)"
          by blast
        with None have kk: "key en \<noteq> k" by auto
        from a \<open>last l \<in> set l\<close> have "last l \<noteq> ?n" by auto
        with en have en3: "elems ?c3 (last l) = Some en" by (simp add: inserted_def)
        have "removeOldest ?c3 = removeElement ?c3 (last (?n # l))"
          by (rule removeOldest_nonempty[where m="m(k \<mapsto> ?n)"]) (simp_all add: inserted_def)
        also have "\<dots> = removeElement ?c3 (last l)" using ne by simp
        finally have "Set c k v now = removeElement ?c3 (last l)"
          using S by simp
        also have "\<dots> = Inr (?c3\<lparr>lruIndex := Some (remove1 (last l) (?n # l)),
            ttlIndex := (if 0 < expiration ?c3 then map_option (remove1 (last l)) (ttlIndex ?c3)
                         else ttlIndex ?c3),
            cache := Some ((m(k \<mapsto> ?n))(key en := None))\<rparr>)"
          by (rule removeElement_live[OF _ _ en3]) (simp_all add: inserted_def)
        finally show ?thesis using kk by (simp add: Get_def inserted_def)
      qed
    qed
  qed
  show ?thesis
  proof (cases "cache c")
    case None
    then have "wellformed (initialise c)" by (rule wellformed_initialise)
    moreover have "0 \<le> maxEntries (initialise c)" using cap by (simp add: initialise_def)
    ultimately show ?thesis using main Set_nil[OF None, of k v now] by metis
  next
    case (Some m)
    with wf have "wellformed c" by simp
    then show ?thesis using cap by (rule main)
  qed
qed

lemma Set_then_Get_example:
  "(wellformed cache_ab \<or> cache cache_ab = None) \<and> 0 \<le> maxEntries cache_ab \<and>
   (\<exists>c' c''. Set cache_ab ''c'' (Val 3) 2 = Inr c' \<and> Get c' ''c'' = Inr (c'', Val 3, True))"
proof -
  have wf: "wellformed cache_ab \<or> cache cache_ab = None" using wellformed_cache_ab by simp
  have cap: "0 \<le> maxEntries cache_ab" by (simp add: cache_ab_def)
  from Set_then_Get[OF wf cap, of "''c''" "Val 3" 2] wf cap show ?thesis by simp
qed

subsection \<open>The expiry instant of a refreshed entry\<close>

text \<open>
  Claim C3 as stated fails. \<open>Set\<close> on a present key writes \<open>time.Now()\<close> into the
  entry the queue's element points to, so the sweeper reads the new timestamp: with
  expiration 10, a key set at time 0 and set again at time 5 gets the expiry instant 15,
  not 10. Its place in the queue is the same.
\<close>

theorem refreshed_expiry_counterexample:
  "\<exists>c1 c2. Set (New 0 10) ''a'' (Val (1::nat)) 0 = Inr c1 \<and>
           cleanExpired_peek c1 = Inr (Some (0, 0 + 10)) \<and>
           Set c1 ''a'' (Val 2) 5 = Inr c2 \<and>
           ttlIndex c2 = ttlIndex c1 \<and>
           cleanExpired_peek c2 = Inr (Some (0, 5 + 10)) \<and>
           cleanExpired_peek c2 \<noteq> Inr (Some (0, 0 + 10))"
  by (simp add: New_def Set_def Let_def PushFront_def sliceAppend_def MoveToFront_def
      cleanExpired_peek_def Add_def)

text \<open>
  Claim C3, amended. After \<open>Set\<close> on a present key at time \<open>now\<close> the queue is
  unchanged and the entry's timestamp is \<open>now\<close>; when the entry is at the head of the
  queue, the expiry instant the sweeper computes is \<open>now + expiration\<close>: the last-write
  time plus the duration.
\<close>

theorem refreshed_expiry:
  assumes wf: "wellformed c" and m: "cache c = Some m" and k: "m k = Some e"
  shows "\<exists>c' en. Set c k v now = Inr c' \<and> ttlIndex c' = ttlIndex c \<and>
           expiration c' = expiration c \<and>
           elems c' e = Some en \<and> timestamp en = now \<and>
           (\<forall>q. ttlIndex c = Some (e # q) \<longrightarrow>
              cleanExpired_peek c' = Inr (Some (e, now + expiration c)))"
proof -
  from wf m obtain l where l: "lruIndex c = Some l"
    and b: "\<forall>k e. m k = Some e \<longrightarrow> e \<in> set l \<and> (\<exists>en. elems c e = Some en \<and> key en = k)"
    by (auto simp: wellformed_iff)
  from b k obtain en where en: "elems c e = Some en" by blast
  show ?thesis
    using Set_hit[OF m k l en, of v now]
    by (auto simp: cleanExpired_peek_def Add_def)
qed

theorem refreshed_expiry_witness:
  "wellformed cache_ab \<and> cache cache_ab = Some [''a'' \<mapsto> 0, ''b'' \<mapsto> 1] \<and>
   ttlIndex cache_ab = Some [0, 1] \<and>
   (\<exists>c'. Set cache_ab ''a'' (Val 7) 9 = Inr c' \<and> ttlIndex c' = Some [0, 1] \<and>
         cleanExpired_peek c' = Inr (Some (0, 9 + 10)))"
proof -
  have m: "cache cache_ab = Some [''a'' \<mapsto> 0, ''b'' \<mapsto> 1]" by (simp add: cache_ab_def)
  have k: "[''a'' \<mapsto> 0, ''b'' \<mapsto> (1::nat)] ''a'' = Some 0" by simp
  have q: "ttlIndex cache_ab = Some [0, 1]" "expiration cache_ab = 10" by (simp_all add: cache_ab_def)
  from refreshed_expiry[OF wellformed_cache_ab m k, of "Val 7" 9]
  show ?thesis using wellformed_cache_ab m q by auto
qed

subsection \<open>The sweeper's sleep\<close>

text \<open>
  When the head has not expired the source sleeps for \<open>time.Now().Sub(exp)\<close>: the
  current time minus the expiry instant, which is zero or negative until the instant has
  passed, so \<open>time.Sleep\<close> returns at once.
\<close>

lemma sweeper_sleep_not_positive:
  assumes "\<not> After now1 x" and "now2 \<le> x"
  shows "\<exists>d. cleanExpired_next c (Some (e, x)) now1 now2 = Sleep d \<and> d \<le> 0 \<and> pause d = 0"
  using assms by (simp add: cleanExpired_next_def Sub_def pause_def Let_def)

text \<open>
  Claim C4 says that the sweeper sleeps for the expiry instant minus the current time.
  The code evaluated: the head was written at time 0 with expiration 10, the clock reads
  3 at both reads; the iteration asks for a sleep of \<open>-7\<close>, which does not wait, where
  the claim says 7.
\<close>

theorem sweeper_sleep_operands:
  "\<exists>c1. Set (New 0 10) ''a'' (Val (1::nat)) 0 = Inr c1 \<and>
        cleanExpired_peek c1 = Inr (Some (0, 10)) \<and>
        cleanExpired_next c1 (Some (0, 10)) 3 3 = Sleep (- 7) \<and>
        pause (- 7) = 0"
  by (simp add: New_def Set_def Let_def PushFront_def sliceAppend_def
      cleanExpired_peek_def Add_def cleanExpired_next_def After_def Sub_def pause_def)

subsection \<open>The sweeper's removal of an element it no longer owns\<close>

text \<open>
  The public operations keep the invariant (\<open>wellformed_Set\<close>, \<open>wellformed_Get\<close>,
  \<open>wellformed_Delete\<close>, \<open>wellformed_Flush\<close>), and so does the removal of an element
  that is still in the list (\<open>wellformed_removeElement\<close>, \<open>wellformed_sweep_head\<close>,
  \<open>wellformed_step\<close>); the invariant gives the same key set in map and list
  (\<open>wellformed_same_keys\<close>) and the queue in allocation order (\<open>wellformed_queue\<close>).
  The sweeper releases the read lock before it takes the write lock, so the element it
  removes may have left the cache in between. \<open>removeElement\<close> then deletes the
  element's key from the map although the key now belongs to another element.
\<close>

lemma cache_readded_history:
  "run (New 0 10) [OpSet ''a'' (Val 1) 0, OpDelete ''a'', OpSet ''a'' (Val 2) 11] = Inr cache_readded"
  by (simp add: New_def Set_def Let_def PushFront_def sliceAppend_def Delete_def
      removeElement_def Remove_def cache_readded_def)

lemma wellformed_cache_readded: "wellformed cache_readded"
  by (auto simp: wellformed_def cache_readded_def entryKey_def)

lemma stale_removal_not_wellformed:
  "\<exists>c'. removeElement cache_readded 0 = Inr c' \<and> \<not> wellformed c'"
  by (simp add: removeElement_def Remove_def cache_readded_def wellformed_def)

text \<open>
  Claim C5 says that the sweeper's removal step keeps the map and the list on the same
  key set. The code evaluated: \<open>Set("a", 1)\<close> at time 0 with expiration 10; the sweeper
  peeks element 0 (expiry 10) and at time 11 decides to remove it; before it takes the
  write lock, \<open>Delete("a")\<close> and \<open>Set("a", 2)\<close> run; the removal of element 0 then
  empties the map while the list and the queue still hold element 1 with key \<open>a\<close>:
  \<open>Len\<close> is 1 and \<open>Get("a")\<close> misses.
\<close>

theorem sweeper_stale_removal:
  "\<exists>c1 c2 c3 c4.
      Set (New 0 10) ''a'' (Val (1::nat)) 0 = Inr c1 \<and>
      cleanExpired_peek c1 = Inr (Some (0, 10)) \<and>
      cleanExpired_next c1 (Some (0, 10)) 11 11 = Removal 0 \<and>
      Delete c1 ''a'' = Inr c2 \<and>
      Set c2 ''a'' (Val 2) 11 = Inr c3 \<and>
      removeElement c3 0 = Inr c4 \<and>
      cache c4 = Some Map.empty \<and> lruIndex c4 = Some [1] \<and> ttlIndex c4 = Some [1] \<and>
      entryKey c4 1 = Some ''a'' \<and>
      Len c4 = Inr 1 \<and> Get c4 ''a'' = Inr (c4, NilValue, False)"
  by (simp add: New_def Set_def Let_def PushFront_def sliceAppend_def
      cleanExpired_peek_def Add_def cleanExpired_next_def After_def Delete_def
      removeElement_def Remove_def entryKey_def Len_def Get_def)

subsection \<open>The capacity bound\<close>

lemma removeElement_total:
  "lruIndex c = Some l \<Longrightarrow>
   \<exists>c'. removeElement c e = Inr c' \<and> lruIndex c' = Some (remove1 e l) \<and>
        maxEntries c' = maxEntries c \<and> elems c' = elems c \<and>
        (case cache c of None \<Rightarrow> cache c' = None
         | Some m \<Rightarrow> \<exists>m'. cache c' = Some m' \<and> m' \<subseteq>\<^sub>m m)"
  by (auto simp: removeElement_def Remove_def Let_def map_le_def split: option.splits)

lemma bounded_iff:
  "bounded c \<longleftrightarrow>
     (\<exists>m l. cache c = Some m \<and> lruIndex c = Some l \<and> int (length l) \<le> maxEntries c \<and>
        (\<forall>k e. m k = Some e \<longrightarrow> (\<exists>en. elems c e = Some en)))"
  by (auto simp: bounded_def ran_def dom_def split: option.splits) 

lemma bounded_removeElement:
  assumes "bounded c"
  shows "\<exists>c'. removeElement c e = Inr c' \<and> bounded c' \<and> maxEntries c' = maxEntries c"
proof -
  from assms obtain m l where m: "cache c = Some m" and l: "lruIndex c = Some l"
    and n: "int (length l) \<le> maxEntries c"
    and a: "\<forall>k e. m k = Some e \<longrightarrow> (\<exists>en. elems c e = Some en)"
    by (auto simp: bounded_iff)
  from removeElement_total[OF l, of e] m obtain c' m' where
    c': "removeElement c e = Inr c'" "lruIndex c' = Some (remove1 e l)"
        "maxEntries c' = maxEntries c" "elems c' = elems c" "cache c' = Some m'" "m' \<subseteq>\<^sub>m m"
    by auto
  have "length (remove1 e l) \<le> length l" by (simp add: length_remove1)
  with n have n': "int (length (remove1 e l)) \<le> maxEntries c" by linarith
  have "\<forall>k e. m' k = Some e \<longrightarrow> (\<exists>en. elems c e = Some en)"
    using a c'(6) by (metis domI map_le_def)
  with c' n' show ?thesis by (auto simp: bounded_iff)
qed

lemma length_remove1_last: "length (remove1 (last (x # l)) (x # l)) = length l"
proof -
  have "last (x # l) \<in> set (x # l)" by (rule last_in_set) simp
  then show ?thesis by (simp only: length_remove1 if_True) simp
qed

lemma bounded_Set:
  assumes bd: "bounded c" and cap: "0 < maxEntries c"
  shows "\<exists>c' l l'. Set c k v now = Inr c' \<and> bounded c' \<and> maxEntries c' = maxEntries c \<and>
           lruIndex c = Some l \<and> lruIndex c' = Some l' \<and>
           length l' = (if absent c k
                        then (if maxEntries c < int (length l) + 1 then (length l + 1) - 1
                              else length l + 1)
                        else length l)"
proof -
  from bd obtain m l where m: "cache c = Some m" and l: "lruIndex c = Some l"
    and n: "int (length l) \<le> maxEntries c"
    and a: "\<forall>k e. m k = Some e \<longrightarrow> (\<exists>en. elems c e = Some en)"
    by (auto simp: bounded_iff)
  show ?thesis
  proof (cases "m k")
    case (Some e)
    with a obtain en where en: "elems c e = Some en" by blast
    let ?c' = "c\<lparr>lruIndex := Some (MoveToFront l e),
                  elems := (elems c)(e \<mapsto> en\<lparr>val := v, timestamp := now\<rparr>)\<rparr>"
    have "bounded ?c'" using m n a by (auto simp: bounded_iff length_MoveToFront)
    moreover have "\<not> absent c k" using m Some by (simp add: absent_def)
    ultimately show ?thesis using Set_hit[OF m Some l en, of v now] l
      by (simp add: length_MoveToFront)
  next
    case None
    let ?n = "nextElem c"
    let ?c3 = "inserted c m l k v now"
    have ab: "absent c k" using m None by (simp add: absent_def)
    have a3: "\<forall>k' e. (m(k \<mapsto> ?n)) k' = Some e \<longrightarrow> (\<exists>en. elems ?c3 e = Some en)"
      using a by (auto simp: inserted_def)
    show ?thesis
    proof (cases "maxEntries c \<noteq> 0 \<and> int (length l) + 1 > maxEntries c")
      case False
      then have S: "Set c k v now = Inr ?c3"
        by (subst Set_miss[OF m None l]) (rule if_not_P)
      from False cap have "int (length l) + 1 \<le> maxEntries c" by auto
      then have "bounded ?c3" using a3 by (auto simp: bounded_iff inserted_def)
      with S False cap ab l show ?thesis by (auto simp: inserted_def)
    next
      case True
      then have S: "Set c k v now = removeOldest ?c3"
        by (subst Set_miss[OF m None l]) (rule if_P)
      have R: "removeOldest ?c3 = removeElement ?c3 (last (?n # l))"
        by (rule removeOldest_nonempty[where m="m(k \<mapsto> ?n)"]) (simp_all add: inserted_def)
      have l3: "lruIndex ?c3 = Some (?n # l)" by (simp add: inserted_def)
      define l' where "l' = remove1 (last (?n # l)) (?n # l)"
      have len: "length l' = length l" unfolding l'_def by (rule length_remove1_last)
      from removeElement_total[OF l3, of "last (?n # l)"] obtain c' m' where
        c': "removeElement ?c3 (last (?n # l)) = Inr c'"
            "lruIndex c' = Some l'"
            "maxEntries c' = maxEntries ?c3" "elems c' = elems ?c3"
            "cache c' = Some m'" "m' \<subseteq>\<^sub>m m(k \<mapsto> ?n)"
        unfolding l'_def by (auto simp: inserted_def)
      have mx: "maxEntries ?c3 = maxEntries c" by (simp add: inserted_def)
      have "\<forall>k e. m' k = Some e \<longrightarrow> (\<exists>en. elems c' e = Some en)"
        using a3 c'(4,6) by (metis domI map_le_def)
      with c'(2,3,5) n len mx have "bounded c'"
        unfolding bounded_iff by simp
      moreover have "Set c k v now = Inr c'" using S R c'(1) by simp
      ultimately show ?thesis using True ab l c'(2,3) len mx by simp
    qed
  qed
qed

lemma bounded_step:
  assumes bd: "bounded c" and cap: "0 < maxEntries c"
  shows "\<exists>c'. step c x = Inr c' \<and> bounded c' \<and> maxEntries c' = maxEntries c"
proof (cases x)
  case (OpSet k v now)
  with bounded_Set[OF bd cap, of k v now] show ?thesis by auto
next
  case (OpGet k)
  from bd obtain m l where m: "cache c = Some m" and l: "lruIndex c = Some l"
    and n: "int (length l) \<le> maxEntries c"
    and a: "\<forall>k e. m k = Some e \<longrightarrow> (\<exists>en. elems c e = Some en)"
    by (auto simp: bounded_iff)
  show ?thesis
  proof (cases "m k")
    case None
    with OpGet m bd show ?thesis by (simp add: Get_def)
  next
    case (Some e)
    with a obtain en where en: "elems c e = Some en" by blast
    have "bounded (c\<lparr>lruIndex := Some (MoveToFront l e)\<rparr>)"
      using m n a by (auto simp: bounded_iff length_MoveToFront)
    with OpGet m l Some en show ?thesis by (simp add: Get_def)
  qed
next
  case (OpDelete k)
  show ?thesis
  proof (cases "absent c k")
    case True
    with OpDelete bd show ?thesis by (auto simp: Delete_def absent_def split: option.splits)
  next
    case False
    then obtain m e where "cache c = Some m" "m k = Some e"
      by (auto simp: absent_def split: option.splits)
    with OpDelete bounded_removeElement[OF bd, of e] show ?thesis by (simp add: Delete_def)
  qed
next
  case OpFlush
  with cap show ?thesis by (simp add: bounded_iff Flush_def Let_def)
next
  case (OpSweep e)
  with bounded_removeElement[OF bd, of e] show ?thesis by simp
qed

lemma bounded_run:
  "bounded c \<Longrightarrow> 0 < maxEntries c \<Longrightarrow>
   \<exists>c'. run c xs = Inr c' \<and> bounded c' \<and> maxEntries c' = maxEntries c"
proof (induction xs arbitrary: c)
  case Nil
  then show ?case by simp
next
  case (Cons x xs)
  from bounded_step[OF Cons.prems, of x] obtain c1 where
    c1: "step c x = Inr c1" "bounded c1" "maxEntries c1 = maxEntries c" by blast
  with Cons.prems have "0 < maxEntries c1" by simp
  from Cons.IH[OF c1(2) this] c1 show ?case by auto
qed

lemma bounded_New: "0 < C \<Longrightarrow> bounded (New C D)"
  by (simp add: bounded_iff New_def Let_def)

subsection \<open>Eviction removes the least recently used entry\<close>

lemma Set_evicts_back:
  assumes wf: "wellformed c" and m: "cache c = Some m" and l: "lruIndex c = Some l"
    and new: "m k = None" and cap: "0 < maxEntries c"
    and full: "maxEntries c < int (length l) + 1"
  shows "\<exists>en. l \<noteq> [] \<and> elems c (last l) = Some en \<and> m (key en) = Some (last l) \<and>
           Set c k v now =
             Inr ((inserted c m l k v now)
                   \<lparr>lruIndex := Some (nextElem c # butlast l),
                    ttlIndex := (if 0 < expiration c
                                 then map_option (\<lambda>q. remove1 (last l) q @ [nextElem c]) (ttlIndex c)
                                 else ttlIndex c),
                    cache := Some ((m(k \<mapsto> nextElem c))(key en := None))\<rparr>)"
proof -
  from wf m l have d: "distinct l"
    and a: "\<forall>e\<in>set l. e < nextElem c \<and> (\<exists>en. elems c e = Some en \<and> m (key en) = Some e)"
    and t: "0 < expiration c \<longrightarrow> (\<exists>q. ttlIndex c = Some q \<and> set q = set l \<and> sorted_wrt (<) q)"
    by (auto simp: wellformed_iff)
  let ?n = "nextElem c"
  let ?c3 = "inserted c m l k v now"
  from cap full have ev: "maxEntries c \<noteq> 0 \<and> int (length l) + 1 > maxEntries c" by simp
  then have S: "Set c k v now = removeOldest ?c3"
    by (subst Set_miss[OF m new l]) (rule if_P)
  from wf m l have "int (length l) \<ge> 0" by simp
  from cap full have ne: "l \<noteq> []" by auto
  then have inl: "last l \<in> set l" by simp
  with a obtain en where en: "elems c (last l) = Some en" "m (key en) = Some (last l)"
    by blast
  from a inl have neq: "last l \<noteq> ?n" by auto
  with en have en3: "elems ?c3 (last l) = Some en" by (simp add: inserted_def)
  have "removeOldest ?c3 = removeElement ?c3 (last (?n # l))"
    by (rule removeOldest_nonempty[where m="m(k \<mapsto> ?n)"]) (simp_all add: inserted_def)
  also have "\<dots> = removeElement ?c3 (last l)" using ne by simp
  also have "\<dots> = Inr (?c3\<lparr>lruIndex := Some (remove1 (last l) (?n # l)),
            ttlIndex := (if 0 < expiration ?c3 then map_option (remove1 (last l)) (ttlIndex ?c3)
                         else ttlIndex ?c3),
            cache := Some ((m(k \<mapsto> ?n))(key en := None))\<rparr>)"
    by (rule removeElement_live[OF _ _ en3]) (simp_all add: inserted_def)
  finally have R: "Set c k v now = Inr (?c3\<lparr>lruIndex := Some (remove1 (last l) (?n # l)),
            ttlIndex := (if 0 < expiration ?c3 then map_option (remove1 (last l)) (ttlIndex ?c3)
                         else ttlIndex ?c3),
            cache := Some ((m(k \<mapsto> ?n))(key en := None))\<rparr>)"
    using S by simp
  have L: "remove1 (last l) (?n # l) = ?n # butlast l"
    using neq remove1_last[OF d ne] by simp
  have T: "(if 0 < expiration ?c3 then map_option (remove1 (last l)) (ttlIndex ?c3)
                         else ttlIndex ?c3) =
           (if 0 < expiration c
            then map_option (\<lambda>q. remove1 (last l) q @ [?n]) (ttlIndex c)
            else ttlIndex c)"
    using t inl by (auto simp: inserted_def sliceAppend_def remove1_append)
  from R ne en show ?thesis unfolding L T by blast
qed

text \<open>
  Claim C2 as stated fails when the key read is the only entry. With capacity 1:
  \<open>Set("a", 1)\<close>, \<open>Get("a")\<close>, \<open>Set("b", 2)\<close>; the element of \<open>a\<close> is the front and
  the back of the list, and the insertion of \<open>b\<close> removes it.
\<close>

theorem promotion_capacity_one_counterexample:
  "\<exists>c1 c2 c3. Set (New 1 0) ''a'' (Val (1::nat)) 0 = Inr c1 \<and>
              Get c1 ''a'' = Inr (c2, Val 1, True) \<and>
              Set c2 ''b'' (Val 2) 1 = Inr c3 \<and>
              lruIndex c3 = Some [1] \<and>
              Get c3 ''a'' = Inr (c3, NilValue, False)"
  by (simp add: New_def Set_def Let_def PushFront_def Get_def MoveToFront_def
      removeOldest_def Back_def removeElement_def Remove_def)

lemma run_append:
  "run c (xs @ ys) = (case run c xs of Inl p \<Rightarrow> Inl p | Inr c' \<Rightarrow> run c' ys)"
  by (induction xs arbitrary: c) (auto split: sum.splits)

subsection \<open>What every history keeps\<close>

lemma linked_iff:
  "linked c \<longleftrightarrow>
     (\<exists>m l. cache c = Some m \<and> lruIndex c = Some l \<and> distinct l \<and>
        (\<forall>e\<in>set l. e < nextElem c \<and> (\<exists>en. elems c e = Some en)) \<and>
        (\<forall>k e. m k = Some e \<longrightarrow> e \<in> set l \<and> (\<exists>en. elems c e = Some en \<and> key en = k)) \<and>
        (0 < expiration c \<longrightarrow> (\<exists>q. ttlIndex c = Some q \<and> set q = set l \<and> sorted_wrt (<) q)))"
  unfolding linked_def entryKey_def
  by (auto split: option.splits simp: dom_def)

lemma wellformed_linked:
  assumes "wellformed c"
  shows "linked c"
proof -
  from assms obtain m l where m: "cache c = Some m" and l: "lruIndex c = Some l" and d: "distinct l"
    and a: "\<forall>e\<in>set l. e < nextElem c \<and> (\<exists>en. elems c e = Some en \<and> m (key en) = Some e)"
    and b: "\<forall>k e. m k = Some e \<longrightarrow> e \<in> set l \<and> (\<exists>en. elems c e = Some en \<and> key en = k)"
    and t: "0 < expiration c \<longrightarrow> (\<exists>q. ttlIndex c = Some q \<and> set q = set l \<and> sorted_wrt (<) q)"
    unfolding wellformed_iff by blast
  from a have a': "\<forall>e\<in>set l. e < nextElem c \<and> (\<exists>en. elems c e = Some en)" by blast
  show ?thesis unfolding linked_iff using m l d a' b t by simp
qed

lemma linked_New: "linked (New mx ex)"
  by (rule wellformed_linked) (rule wellformed_New)

lemma linked_removeElement:
  assumes lk: "linked c"
  shows "\<exists>c'. removeElement c e = Inr c' \<and> linked c' \<and> maxEntries c' = maxEntries c"
proof -
  from lk obtain m l where m: "cache c = Some m" and l: "lruIndex c = Some l" and d: "distinct l"
    and a: "\<forall>e\<in>set l. e < nextElem c \<and> (\<exists>en. elems c e = Some en)"
    and b: "\<forall>k e. m k = Some e \<longrightarrow> e \<in> set l \<and> (\<exists>en. elems c e = Some en \<and> key en = k)"
    and t: "0 < expiration c \<longrightarrow> (\<exists>q. ttlIndex c = Some q \<and> set q = set l \<and> sorted_wrt (<) q)"
    by (auto simp: linked_iff)
  have A: "\<forall>x\<in>set (remove1 e l). x < nextElem c \<and> (\<exists>en'. elems c x = Some en')"
    using a d by auto
  have C: "0 < expiration c \<longrightarrow>
            (\<exists>q. map_option (remove1 e) (ttlIndex c) = Some q \<and> set q = set (remove1 e l) \<and>
                 sorted_wrt (<) q)"
    using t d by (auto simp: sorted_wrt_less_remove1 sorted_wrt_less_distinct)
  show ?thesis
  proof (cases "elems c e")
    case None
    with a have "e \<notin> set l" by auto
    then have r: "remove1 e l = l" by (rule remove1_idem)
    have "removeElement c e =
            Inr (c\<lparr>lruIndex := Some (remove1 e l),
                   ttlIndex := (if 0 < expiration c then map_option (remove1 e) (ttlIndex c)
                                else ttlIndex c)\<rparr>)"
      using l None by (simp add: removeElement_def Remove_def Let_def sliceDelete_eq)
    moreover have "linked (c\<lparr>lruIndex := Some (remove1 e l),
                   ttlIndex := (if 0 < expiration c then map_option (remove1 e) (ttlIndex c)
                                else ttlIndex c)\<rparr>)"
      unfolding linked_iff using m d A b C r by simp
    ultimately show ?thesis by simp
  next
    case (Some en)
    have B: "\<forall>k x. (m(key en := None)) k = Some x \<longrightarrow>
            x \<in> set (remove1 e l) \<and> (\<exists>en'. elems c x = Some en' \<and> key en' = k)"
    proof (intro allI impI)
      fix k x assume "(m(key en := None)) k = Some x"
      then have k: "k \<noteq> key en" "m k = Some x" by (auto split: if_splits)
      with b obtain en' where en': "x \<in> set l" "elems c x = Some en'" "key en' = k" by blast
      with k Some have "x \<noteq> e" by auto
      with en' d show "x \<in> set (remove1 e l) \<and> (\<exists>en'. elems c x = Some en' \<and> key en' = k)"
        by simp
    qed
    have "linked (c\<lparr>lruIndex := Some (remove1 e l),
            ttlIndex := (if 0 < expiration c then map_option (remove1 e) (ttlIndex c) else ttlIndex c),
            cache := Some (m(key en := None))\<rparr>)"
      unfolding linked_iff using A B C d by simp
    with removeElement_live[OF m l Some] show ?thesis by simp
  qed
qed

lemma linked_promote:
  "linked c \<Longrightarrow> lruIndex c = Some l \<Longrightarrow> linked (c\<lparr>lruIndex := Some (MoveToFront l e)\<rparr>)"
  by (auto simp: linked_iff set_MoveToFront distinct_MoveToFront)

lemma linked_overwrite:
  assumes lk: "linked c" and en: "elems c e = Some en"
  shows "linked (c\<lparr>elems := (elems c)(e \<mapsto> en\<lparr>val := v, timestamp := now\<rparr>)\<rparr>)"
proof -
  from lk obtain m l where m: "cache c = Some m" and l: "lruIndex c = Some l" and d: "distinct l"
    and a: "\<forall>e\<in>set l. e < nextElem c \<and> (\<exists>en. elems c e = Some en)"
    and b: "\<forall>k e. m k = Some e \<longrightarrow> e \<in> set l \<and> (\<exists>en. elems c e = Some en \<and> key en = k)"
    and t: "0 < expiration c \<longrightarrow> (\<exists>q. ttlIndex c = Some q \<and> set q = set l \<and> sorted_wrt (<) q)"
    by (auto simp: linked_iff)
  let ?h = "(elems c)(e \<mapsto> en\<lparr>val := v, timestamp := now\<rparr>)"
  have A: "\<forall>x\<in>set l. x < nextElem c \<and> (\<exists>en'. ?h x = Some en')" using a by auto
  have B: "\<forall>k x. m k = Some x \<longrightarrow> x \<in> set l \<and> (\<exists>en'. ?h x = Some en' \<and> key en' = k)"
  proof (intro allI impI)
    fix k x assume "m k = Some x"
    with b obtain en' where "x \<in> set l" "elems c x = Some en'" "key en' = k" by blast
    with en show "x \<in> set l \<and> (\<exists>en'. ?h x = Some en' \<and> key en' = k)"
      by (cases "x = e") auto
  qed
  show ?thesis unfolding linked_iff using m l d A B t by simp
qed

lemma linked_inserted:
  assumes lk: "linked c" and m: "cache c = Some m" and l: "lruIndex c = Some l"
  shows "linked (inserted c m l k v now)"
proof -
  from lk m l have d: "distinct l"
    and a: "\<forall>e\<in>set l. e < nextElem c \<and> (\<exists>en. elems c e = Some en)"
    and b: "\<forall>k e. m k = Some e \<longrightarrow> e \<in> set l \<and> (\<exists>en. elems c e = Some en \<and> key en = k)"
    and t: "0 < expiration c \<longrightarrow> (\<exists>q. ttlIndex c = Some q \<and> set q = set l \<and> sorted_wrt (<) q)"
    by (auto simp: linked_iff)
  let ?n = "nextElem c"
  let ?en = "\<lparr>key = k, val = v, timestamp = now\<rparr>"
  from a have fresh: "?n \<notin> set l" by auto
  have A: "\<forall>e\<in>set (?n # l). e < Suc ?n \<and> (\<exists>en. ((elems c)(?n \<mapsto> ?en)) e = Some en)"
    using a by auto
  have B: "\<forall>k' e. (m(k \<mapsto> ?n)) k' = Some e \<longrightarrow>
            e \<in> set (?n # l) \<and> (\<exists>en. ((elems c)(?n \<mapsto> ?en)) e = Some en \<and> key en = k')"
  proof (intro allI impI)
    fix k' e assume h: "(m(k \<mapsto> ?n)) k' = Some e"
    show "e \<in> set (?n # l) \<and> (\<exists>en. ((elems c)(?n \<mapsto> ?en)) e = Some en \<and> key en = k')"
    proof (cases "k' = k")
      case True
      with h show ?thesis by simp
    next
      case False
      with h have "m k' = Some e" by simp
      with b obtain en where en: "e \<in> set l" "elems c e = Some en" "key en = k'" by blast
      with fresh have "e \<noteq> ?n" by auto
      with en show ?thesis by simp
    qed
  qed
  have C: "0 < expiration c \<longrightarrow>
            (\<exists>q. Some (sliceAppend (ttlIndex c) ?n) = Some q \<and> set q = set (?n # l) \<and>
                 sorted_wrt (<) q)"
    using t a by (auto simp: sliceAppend_def sorted_wrt_append)
  show ?thesis
    unfolding linked_iff inserted_def using A B C d fresh by simp
qed

lemma Set_overflow:
  assumes lk: "linked c" and m: "cache c = Some m" and l: "lruIndex c = Some l"
    and new: "m k = None" and ev: "maxEntries c \<noteq> 0" "maxEntries c < int (length l) + 1"
    and ne: "l \<noteq> []"
  shows "\<exists>en. elems c (last l) = Some en \<and>
           Set c k v now =
             Inr ((inserted c m l k v now)
                   \<lparr>lruIndex := Some (nextElem c # butlast l),
                    ttlIndex := (if 0 < expiration c
                                 then map_option (\<lambda>q. remove1 (last l) q @ [nextElem c]) (ttlIndex c)
                                 else ttlIndex c),
                    cache := Some ((m(k \<mapsto> nextElem c))(key en := None))\<rparr>)"
proof -
  from lk m l have d: "distinct l"
    and a: "\<forall>e\<in>set l. e < nextElem c \<and> (\<exists>en. elems c e = Some en)"
    and t: "0 < expiration c \<longrightarrow> (\<exists>q. ttlIndex c = Some q \<and> set q = set l \<and> sorted_wrt (<) q)"
    by (auto simp: linked_iff)
  let ?n = "nextElem c"
  let ?c3 = "inserted c m l k v now"
  from ev have "maxEntries c \<noteq> 0 \<and> int (length l) + 1 > maxEntries c" by simp
  then have S: "Set c k v now = removeOldest ?c3"
    by (subst Set_miss[OF m new l]) (rule if_P)
  from ne have inl: "last l \<in> set l" by simp
  with a obtain en where en: "elems c (last l) = Some en" by blast
  from a inl have neq: "last l \<noteq> ?n" by auto
  with en have en3: "elems ?c3 (last l) = Some en" by (simp add: inserted_def)
  have "removeOldest ?c3 = removeElement ?c3 (last (?n # l))"
    by (rule removeOldest_nonempty[where m="m(k \<mapsto> ?n)"]) (simp_all add: inserted_def)
  also have "\<dots> = removeElement ?c3 (last l)" using ne by simp
  also have "\<dots> = Inr (?c3\<lparr>lruIndex := Some (remove1 (last l) (?n # l)),
            ttlIndex := (if 0 < expiration ?c3 then map_option (remove1 (last l)) (ttlIndex ?c3)
                         else ttlIndex ?c3),
            cache := Some ((m(k \<mapsto> ?n))(key en := None))\<rparr>)"
    by (rule removeElement_live[OF _ _ en3]) (simp_all add: inserted_def)
  finally have R: "Set c k v now = Inr (?c3\<lparr>lruIndex := Some (remove1 (last l) (?n # l)),
            ttlIndex := (if 0 < expiration ?c3 then map_option (remove1 (last l)) (ttlIndex ?c3)
                         else ttlIndex ?c3),
            cache := Some ((m(k \<mapsto> ?n))(key en := None))\<rparr>)"
    using S by simp
  have L: "remove1 (last l) (?n # l) = ?n # butlast l"
    using neq remove1_last[OF d ne] by simp
  have T: "(if 0 < expiration ?c3 then map_option (remove1 (last l)) (ttlIndex ?c3)
                         else ttlIndex ?c3) =
           (if 0 < expiration c
            then map_option (\<lambda>q. remove1 (last l) q @ [?n]) (ttlIndex c)
            else ttlIndex c)"
    using t inl by (auto simp: inserted_def sliceAppend_def remove1_append)
  from R en show ?thesis unfolding L T by blast
qed

lemma linked_Set:
  assumes lk: "linked c"
  shows "\<exists>c'. Set c k v now = Inr c' \<and> linked c'"
proof -
  from lk obtain m l where m: "cache c = Some m" and l: "lruIndex c = Some l"
    and b: "\<forall>k e. m k = Some e \<longrightarrow> e \<in> set l \<and> (\<exists>en. elems c e = Some en \<and> key en = k)"
    by (auto simp: linked_iff)
  show ?thesis
  proof (cases "m k")
    case (Some e)
    with b obtain en where en: "elems c e = Some en" by blast
    let ?c1 = "c\<lparr>lruIndex := Some (MoveToFront l e)\<rparr>"
    have "linked ?c1" by (rule linked_promote[OF lk l])
    moreover have "elems ?c1 e = Some en" using en by simp
    ultimately have "linked (?c1\<lparr>elems := (elems ?c1)(e \<mapsto> en\<lparr>val := v, timestamp := now\<rparr>)\<rparr>)"
      by (rule linked_overwrite)
    with Set_hit[OF m Some l en, of v now] show ?thesis by simp
  next
    case None
    let ?c3 = "inserted c m l k v now"
    have lk3: "linked ?c3" by (rule linked_inserted[OF lk m l])
    show ?thesis
    proof (cases "maxEntries c \<noteq> 0 \<and> int (length l) + 1 > maxEntries c")
      case True
      then have S: "Set c k v now = removeOldest ?c3"
        by (subst Set_miss[OF m None l]) (rule if_P)
      have "removeOldest ?c3 = removeElement ?c3 (last (nextElem c # l))"
        by (rule removeOldest_nonempty[where m="m(k \<mapsto> nextElem c)"]) (simp_all add: inserted_def)
      with S linked_removeElement[OF lk3, of "last (nextElem c # l)"] show ?thesis by auto
    next
      case False
      then have "Set c k v now = Inr ?c3"
        by (subst Set_miss[OF m None l]) (rule if_not_P)
      with lk3 show ?thesis by simp
    qed
  qed
qed

lemma linked_step:
  assumes lk: "linked c"
  shows "\<exists>c'. step c x = Inr c' \<and> linked c'"
proof (cases x)
  case (OpSet k v now)
  with linked_Set[OF lk, of k v now] show ?thesis by simp
next
  case (OpGet k)
  from lk obtain m l where m: "cache c = Some m" and l: "lruIndex c = Some l"
    and b: "\<forall>k e. m k = Some e \<longrightarrow> e \<in> set l \<and> (\<exists>en. elems c e = Some en \<and> key en = k)"
    by (auto simp: linked_iff)
  show ?thesis
  proof (cases "m k")
    case None
    with OpGet m lk show ?thesis by (simp add: Get_def)
  next
    case (Some e)
    with b obtain en where en: "elems c e = Some en" by blast
    from linked_promote[OF lk l, of e] OpGet m l Some en show ?thesis by (simp add: Get_def)
  qed
next
  case (OpDelete k)
  show ?thesis
  proof (cases "absent c k")
    case True
    with OpDelete lk show ?thesis by (auto simp: Delete_def absent_def split: option.splits)
  next
    case False
    then obtain m e where "cache c = Some m" "m k = Some e"
      by (auto simp: absent_def split: option.splits)
    with OpDelete linked_removeElement[OF lk, of e] show ?thesis by (auto simp: Delete_def)
  qed
next
  case OpFlush
  have "linked (Flush c)" by (rule wellformed_linked) (rule wellformed_Flush)
  with OpFlush show ?thesis by simp
next
  case (OpSweep e)
  with linked_removeElement[OF lk, of e] show ?thesis by auto
qed

lemma linked_run: "linked c \<Longrightarrow> \<exists>c'. run c xs = Inr c' \<and> linked c'"
proof (induction xs arbitrary: c)
  case Nil
  then show ?case by simp
next
  case (Cons x xs)
  from linked_step[OF Cons.prems, of x] obtain c1 where c1: "step c x = Inr c1" "linked c1"
    by blast
  from Cons.IH[OF c1(2)] c1(1) show ?case by simp
qed

subsection \<open>The capacity bound and the eviction, on every history\<close>

text \<open>
  Claim C1. A cache made by \<open>New\<close> with capacity \<open>C > 0\<close> runs any history without a
  panic, and after each step \<open>Len\<close> is at most \<open>C\<close>. In the state reached, \<open>Set\<close> of
  a key that is not in the map pushes a new element with that key and value. When that
  makes the size exceed \<open>C\<close>, exactly one element goes before \<open>Set\<close> returns: the list
  is the new element followed by the old list without its last element, the key of that
  last element is deleted from the map, the element leaves the queue, and \<open>Len\<close> is
  \<open>C\<close> again. Otherwise nothing is removed.
\<close>

theorem capacity_bound:
  assumes "0 < C"
  shows "\<exists>c n m l. run (New C D) (ops :: 'v op list) = Inr c \<and> Len c = Inr n \<and> 0 \<le> n \<and> n \<le> C \<and>
           cache c = Some m \<and> lruIndex c = Some l \<and> nextElem c \<notin> set l \<and>
           (\<forall>k v now. m k = None \<longrightarrow>
              (\<exists>c'. Set c k v now = Inr c' \<and>
                    elems c' (nextElem c) = Some \<lparr>key = k, val = v, timestamp = now\<rparr> \<and>
                    (if C < n + 1
                     then l \<noteq> [] \<and> lruIndex c' = Some (nextElem c # butlast l) \<and>
                          (\<exists>en. elems c (last l) = Some en \<and>
                                cache c' = Some ((m(k \<mapsto> nextElem c))(key en := None))) \<and>
                          (0 < expiration c \<longrightarrow>
                             ttlIndex c' =
                               map_option (\<lambda>q. remove1 (last l) q @ [nextElem c]) (ttlIndex c)) \<and>
                          Len c' = Inr ((n + 1) - 1)
                     else lruIndex c' = Some (nextElem c # l) \<and>
                          cache c' = Some (m(k \<mapsto> nextElem c)) \<and>
                          Len c' = Inr (n + 1))))"
proof -
  have mx: "maxEntries (New C D :: 'v Cache) = C" by (simp add: New_def Let_def)
  from assms mx have "0 < maxEntries (New C D :: 'v Cache)" by simp
  from bounded_run[OF bounded_New[OF assms] this, of ops] mx obtain c where
    c: "run (New C D) ops = Inr c" "bounded c" "maxEntries c = C"
    by auto
  from linked_run[OF linked_New, of C D ops] c(1) have lk: "linked c" by auto
  from c(2) obtain m l where m: "cache c = Some m" and l: "lruIndex c = Some l"
    and n: "int (length l) \<le> C"
    using c(3) by (auto simp: bounded_iff)
  from lk l have fresh: "nextElem c \<notin> set l" by (auto simp: linked_iff)
  let ?n = "int (length l)"
  have step: "\<exists>c'. Set c k v now = Inr c' \<and>
                    elems c' (nextElem c) = Some \<lparr>key = k, val = v, timestamp = now\<rparr> \<and>
                    (if C < ?n + 1
                     then l \<noteq> [] \<and> lruIndex c' = Some (nextElem c # butlast l) \<and>
                          (\<exists>en. elems c (last l) = Some en \<and>
                                cache c' = Some ((m(k \<mapsto> nextElem c))(key en := None))) \<and>
                          (0 < expiration c \<longrightarrow>
                             ttlIndex c' =
                               map_option (\<lambda>q. remove1 (last l) q @ [nextElem c]) (ttlIndex c)) \<and>
                          Len c' = Inr ((?n + 1) - 1)
                     else lruIndex c' = Some (nextElem c # l) \<and>
                          cache c' = Some (m(k \<mapsto> nextElem c)) \<and>
                          Len c' = Inr (?n + 1))"
    if new: "m k = None" for k v now
  proof (cases "C < ?n + 1")
    case True
    with assms have ne: "l \<noteq> []" by auto
    from assms c(3) have ev1: "maxEntries c \<noteq> 0" by simp
    from True c(3) have ev2: "maxEntries c < ?n + 1" by simp
    from Set_overflow[OF lk m l new ev1 ev2 ne, of v now] obtain en where
      en: "elems c (last l) = Some en"
      and S: "Set c k v now =
             Inr ((inserted c m l k v now)
                   \<lparr>lruIndex := Some (nextElem c # butlast l),
                    ttlIndex := (if 0 < expiration c
                                 then map_option (\<lambda>q. remove1 (last l) q @ [nextElem c]) (ttlIndex c)
                                 else ttlIndex c),
                    cache := Some ((m(k \<mapsto> nextElem c))(key en := None))\<rparr>)"
      by blast
    from ne have "length (butlast l) + 1 = length l" by simp
    then have len: "int (length (nextElem c # butlast l)) = ?n" by simp
    show ?thesis using True ne en len unfolding S
      by (simp add: inserted_def Len_def)
  next
    case False
    with c(3) have "\<not> (maxEntries c \<noteq> 0 \<and> ?n + 1 > maxEntries c)" by simp
    then have S: "Set c k v now = Inr (inserted c m l k v now)"
      by (subst Set_miss[OF m new l]) (rule if_not_P)
    show ?thesis using False unfolding S by (simp add: inserted_def Len_def)
  qed
  have L: "Len c = Inr ?n" using m l by (simp add: Len_def)
  have F: "run (New C D) ops = Inr c \<and> Len c = Inr ?n \<and> 0 \<le> ?n \<and> ?n \<le> C \<and>
           cache c = Some m \<and> lruIndex c = Some l \<and> nextElem c \<notin> set l \<and>
           (\<forall>k v now. m k = None \<longrightarrow>
              (\<exists>c'. Set c k v now = Inr c' \<and>
                    elems c' (nextElem c) = Some \<lparr>key = k, val = v, timestamp = now\<rparr> \<and>
                    (if C < ?n + 1
                     then l \<noteq> [] \<and> lruIndex c' = Some (nextElem c # butlast l) \<and>
                          (\<exists>en. elems c (last l) = Some en \<and>
                                cache c' = Some ((m(k \<mapsto> nextElem c))(key en := None))) \<and>
                          (0 < expiration c \<longrightarrow>
                             ttlIndex c' =
                               map_option (\<lambda>q. remove1 (last l) q @ [nextElem c]) (ttlIndex c)) \<and>
                          Len c' = Inr ((?n + 1) - 1)
                     else lruIndex c' = Some (nextElem c # l) \<and>
                          cache c' = Some (m(k \<mapsto> nextElem c)) \<and>
                          Len c' = Inr (?n + 1))))"
    using c(1) L n m l fresh step by simp
  show ?thesis
    by (rule exI[of _ c], rule exI[of _ ?n], rule exI[of _ m], rule exI[of _ l]) (rule F)
qed

theorem capacity_bound_witness:
  "(0::int) < 2 \<and>
   (\<exists>c. run (New 2 10) [OpSet ''a'' (Val 1) 0, OpSet ''b'' (Val 2) 1, OpSet ''c'' (Val (3::nat)) 2] = Inr c \<and>
        Len c = Inr 2 \<and> lruIndex c = Some [2, 1] \<and> absent c ''d'' \<and>
        (\<exists>c'. Set c ''d'' (Val 4) 3 = Inr c' \<and> lruIndex c' = Some [3, 2] \<and>
              cache c' = Some [''c'' \<mapsto> 2, ''d'' \<mapsto> 3] \<and> Len c' = Inr 2))"
proof -
  have h: "(0::int) < 2" by simp
  let ?ops = "[OpSet ''a'' (Val 1) 0, OpSet ''b'' (Val 2) 1, OpSet ''c'' (Val (3::nat)) 2]"
  from capacity_bound[OF h, of 10 ?ops] obtain c n m l where
    c: "run (New 2 10) ?ops = Inr c" "Len c = Inr n" "cache c = Some m" "lruIndex c = Some l"
       "\<forall>k v now. m k = None \<longrightarrow>
              (\<exists>c'. Set c k v now = Inr c' \<and>
                    elems c' (nextElem c) = Some \<lparr>key = k, val = v, timestamp = now\<rparr> \<and>
                    (if 2 < n + 1
                     then l \<noteq> [] \<and> lruIndex c' = Some (nextElem c # butlast l) \<and>
                          (\<exists>en. elems c (last l) = Some en \<and>
                                cache c' = Some ((m(k \<mapsto> nextElem c))(key en := None))) \<and>
                          (0 < expiration c \<longrightarrow>
                             ttlIndex c' =
                               map_option (\<lambda>q. remove1 (last l) q @ [nextElem c]) (ttlIndex c)) \<and>
                          Len c' = Inr ((n + 1) - 1)
                     else lruIndex c' = Some (nextElem c # l) \<and>
                          cache c' = Some (m(k \<mapsto> nextElem c)) \<and>
                          Len c' = Inr (n + 1)))"
    by blast
  have "run (New 2 10) ([OpSet ''a'' (Val 1) 0, OpSet ''b'' (Val 2) 1] @ [OpSet ''c'' (Val 3) 2])
          = Set cache_ab ''c'' (Val 3) 2"
    unfolding run_append cache_ab_history by (simp split: sum.splits)
  then have "run (New 2 10) ?ops = Set cache_ab ''c'' (Val 3) 2" by simp
  with c(1) have cc: "Set cache_ab ''c'' (Val 3) 2 = Inr c" by simp
  then have f: "lruIndex c = Some [2, 1]" "cache c = Some [''b'' \<mapsto> 1, ''c'' \<mapsto> 2]"
      "nextElem c = 3" "elems c 1 = Some \<lparr>key = ''b'', val = Val 2, timestamp = 1\<rparr>"
    by (auto simp: cache_ab_def Set_def Let_def PushFront_def sliceAppend_def removeOldest_def
        Back_def removeElement_def Remove_def)
  from c(4) f(1) have vl: "l = [2, 1]" by simp
  from c(3) f(2) have vm: "m = [''b'' \<mapsto> 1, ''c'' \<mapsto> 2]" by simp
  from c(2) f(1,2) have vn: "n = 2" by (simp add: Len_def)
  note v = vn vl vm
  from vm have "m ''d'' = None" by simp
  with c(5) obtain c' where c': "Set c ''d'' (Val 4) 3 = Inr c'"
      "if 2 < n + 1
       then l \<noteq> [] \<and> lruIndex c' = Some (nextElem c # butlast l) \<and>
            (\<exists>en. elems c (last l) = Some en \<and>
                  cache c' = Some ((m(''d'' \<mapsto> nextElem c))(key en := None))) \<and>
            (0 < expiration c \<longrightarrow>
               ttlIndex c' = map_option (\<lambda>q. remove1 (last l) q @ [nextElem c]) (ttlIndex c)) \<and>
            Len c' = Inr ((n + 1) - 1)
       else lruIndex c' = Some (nextElem c # l) \<and>
            cache c' = Some (m(''d'' \<mapsto> nextElem c)) \<and> Len c' = Inr (n + 1)"
    by blast
  from c'(2) v f have r: "lruIndex c' = Some [3, 2]" "Len c' = Inr 2"
      "cache c' = Some [''c'' \<mapsto> 2, ''d'' \<mapsto> 3]"
    by (auto simp: fun_upd_twist)
  have ab: "absent c ''d''" using f by (simp add: absent_def)
  have "Len c = Inr 2" using c(2) v by simp
  with c(1) f(1) ab c'(1) r h show ?thesis by blast
qed

subsection \<open>Which entry is evicted\<close>

text \<open>
  Claim C2, amended. On every cache a history can reach (\<open>linked\<close>), with capacity above
  0, when \<open>Set\<close> of a new key makes the size exceed the capacity, the entry removed is
  the one at the back of the recency list: the list becomes the new element followed by
  the old list without its last element, that element's key is deleted from the map and
  the element leaves the queue. On a cache where, besides, every element of the list is
  the one the map holds for its key (\<open>wellformed\<close>: the public operations keep it, a
  stale removal by the sweeper breaks it), a present key \<open>k1\<close> read by \<open>Get\<close> before
  the insertion is still readable after it, provided the cache holds at least one other
  entry, and the entry removed is the last of the others. For a cache that is not
  well-formed the amended claim says nothing about the survival of \<open>k1\<close>.
\<close>

theorem eviction_is_lru:
  assumes lk: "linked c" and m: "cache c = Some m" and l: "lruIndex c = Some l"
    and new: "m k = None" and cap: "0 < maxEntries c"
    and full: "maxEntries c < int (length l) + 1"
  shows "(\<exists>c' en. Set c k v now = Inr c' \<and> elems c (last l) = Some en \<and>
            lruIndex c' = Some (nextElem c # butlast l) \<and>
            cache c' = Some ((m(k \<mapsto> nextElem c))(key en := None)) \<and>
            (0 < expiration c \<longrightarrow>
               ttlIndex c' = map_option (\<lambda>q. remove1 (last l) q @ [nextElem c]) (ttlIndex c))) \<and>
         (wellformed c \<longrightarrow>
          (\<forall>k1 e1. m k1 = Some e1 \<longrightarrow> 2 \<le> length l \<longrightarrow>
            (\<exists>c1 c2 c3 en1 en2.
               Get c k1 = Inr (c1, val en1, True) \<and> elems c e1 = Some en1 \<and>
               Set c1 k v now = Inr c2 \<and>
               elems c (last (remove1 e1 l)) = Some en2 \<and> key en2 \<noteq> k1 \<and>
               lruIndex c2 = Some (nextElem c # e1 # butlast (remove1 e1 l)) \<and>
               cache c2 = Some ((m(k \<mapsto> nextElem c))(key en2 := None)) \<and>
               absent c2 (key en2) \<and>
               Get c2 k1 = Inr (c3, val en1, True))))"
proof (intro conjI allI impI)
  from cap full have ne: "l \<noteq> []" by auto
  from cap have ev: "maxEntries c \<noteq> 0" by simp
  from Set_overflow[OF lk m l new ev full ne, of v now]
  show "\<exists>c' en. Set c k v now = Inr c' \<and> elems c (last l) = Some en \<and>
            lruIndex c' = Some (nextElem c # butlast l) \<and>
            cache c' = Some ((m(k \<mapsto> nextElem c))(key en := None)) \<and>
            (0 < expiration c \<longrightarrow>
               ttlIndex c' = map_option (\<lambda>q. remove1 (last l) q @ [nextElem c]) (ttlIndex c))"
    by auto
next
  fix k1 e1
  assume wf: "wellformed c" and k1: "m k1 = Some e1" and two: "2 \<le> length l"
  from wf m l have d: "distinct l"
    and a: "\<forall>e\<in>set l. e < nextElem c \<and> (\<exists>en. elems c e = Some en \<and> m (key en) = Some e)"
    and b: "\<forall>k e. m k = Some e \<longrightarrow> e \<in> set l \<and> (\<exists>en. elems c e = Some en \<and> key en = k)"
    by (auto simp: wellformed_iff)
  from b k1 obtain en1 where e1: "e1 \<in> set l" and en1: "elems c e1 = Some en1" by blast
  let ?r = "remove1 e1 l"
  let ?l1 = "e1 # ?r"
  let ?c1 = "c\<lparr>lruIndex := Some (MoveToFront l e1)\<rparr>"
  have mtf: "MoveToFront l e1 = ?l1" using e1 by (simp add: MoveToFront_def)
  have G: "Get c k1 = Inr (?c1, val en1, True)" using m k1 l en1 by (simp add: Get_def)
  have wf1: "wellformed ?c1" by (rule wellformed_promote[OF wf l])
  have m1: "cache ?c1 = Some m" using m by simp
  have l1: "lruIndex ?c1 = Some ?l1" using mtf by simp
  have cap1: "0 < maxEntries ?c1" using cap by simp
  have len: "length ?l1 = length l" using length_MoveToFront[of l e1] mtf by simp
  have full1: "maxEntries ?c1 < int (length ?l1) + 1" using full len by simp
  from two e1 have rne: "?r \<noteq> []" by (auto simp: length_remove1 dest!: arg_cong[where f=length])
  then have last1: "last ?l1 = last ?r" and bl1: "butlast ?l1 = e1 # butlast ?r" by simp_all
  from Set_evicts_back[OF wf1 m1 l1 new cap1 full1, of v now]
  obtain en2 where en2: "elems c (last ?r) = Some en2" "m (key en2) = Some (last ?r)"
    and S: "Set ?c1 k v now =
             Inr ((inserted ?c1 m ?l1 k v now)
                   \<lparr>lruIndex := Some (nextElem c # e1 # butlast ?r),
                    ttlIndex := (if 0 < expiration c
                                 then map_option (\<lambda>q. remove1 (last ?r) q @ [nextElem c]) (ttlIndex c)
                                 else ttlIndex c),
                    cache := Some ((m(k \<mapsto> nextElem c))(key en2 := None))\<rparr>)"
    unfolding last1 bl1 by auto
  let ?c2 = "(inserted ?c1 m ?l1 k v now)
                   \<lparr>lruIndex := Some (nextElem c # e1 # butlast ?r),
                    ttlIndex := (if 0 < expiration c
                                 then map_option (\<lambda>q. remove1 (last ?r) q @ [nextElem c]) (ttlIndex c)
                                 else ttlIndex c),
                    cache := Some ((m(k \<mapsto> nextElem c))(key en2 := None))\<rparr>"
  from rne have "last ?r \<in> set ?r" by simp
  moreover from d have "e1 \<notin> set ?r" by simp
  ultimately have "last ?r \<noteq> e1" by metis
  with en2 k1 have kk: "key en2 \<noteq> k1" by auto
  from k1 new have k1k: "k1 \<noteq> k" by auto
  from a e1 have "e1 \<noteq> nextElem c" by auto
  then have el: "elems ?c2 e1 = Some en1" using en1 by (simp add: inserted_def)
  have c2m: "cache ?c2 = Some ((m(k \<mapsto> nextElem c))(key en2 := None))" by simp
  have ab: "absent ?c2 (key en2)" by (simp add: absent_def)
  have G2: "\<exists>c3. Get ?c2 k1 = Inr (c3, val en1, True)"
    using kk k1k k1 el by (simp add: Get_def)
  from G2 obtain c3 where G3: "Get ?c2 k1 = Inr (c3, val en1, True)" ..
  have L2: "lruIndex ?c2 = Some (nextElem c # e1 # butlast ?r)" by simp
  note e2 = en2(1)
  have F: "Get c k1 = Inr (?c1, val en1, True) \<and> elems c e1 = Some en1 \<and>
               Set ?c1 k v now = Inr ?c2 \<and>
               elems c (last (remove1 e1 l)) = Some en2 \<and> key en2 \<noteq> k1 \<and>
               lruIndex ?c2 = Some (nextElem c # e1 # butlast (remove1 e1 l)) \<and>
               cache ?c2 = Some ((m(k \<mapsto> nextElem c))(key en2 := None)) \<and>
               absent ?c2 (key en2) \<and>
               Get ?c2 k1 = Inr (c3, val en1, True)"
    by (intro conjI) (fact G en1 S e2 kk L2 c2m ab G3)+
  show "\<exists>c1 c2 c3 en1 en2.
               Get c k1 = Inr (c1, val en1, True) \<and> elems c e1 = Some en1 \<and>
               Set c1 k v now = Inr c2 \<and>
               elems c (last (remove1 e1 l)) = Some en2 \<and> key en2 \<noteq> k1 \<and>
               lruIndex c2 = Some (nextElem c # e1 # butlast (remove1 e1 l)) \<and>
               cache c2 = Some ((m(k \<mapsto> nextElem c))(key en2 := None)) \<and>
               absent c2 (key en2) \<and>
               Get c2 k1 = Inr (c3, val en1, True)"
    by (rule exI[of _ ?c1], rule exI[of _ ?c2], rule exI[of _ c3], rule exI[of _ en1],
        rule exI[of _ en2]) (rule F)
qed

theorem eviction_is_lru_witness:
  "linked cache_ab \<and> wellformed cache_ab \<and> cache cache_ab = Some [''a'' \<mapsto> 0, ''b'' \<mapsto> 1] \<and>
   lruIndex cache_ab = Some [1, 0] \<and> [''a'' \<mapsto> 0, ''b'' \<mapsto> (1::nat)] ''c'' = None \<and>
   0 < maxEntries cache_ab \<and> maxEntries cache_ab < int (length [1, 0 :: nat]) + 1 \<and>
   (\<exists>c'. Set cache_ab ''c'' (Val 3) 2 = Inr c' \<and> lruIndex c' = Some [2, 1] \<and>
         cache c' = Some [''b'' \<mapsto> 1, ''c'' \<mapsto> 2]) \<and>
   (\<exists>c1 c2 c3. Get cache_ab ''a'' = Inr (c1, Val 1, True) \<and>
         Set c1 ''c'' (Val 3) 2 = Inr c2 \<and> lruIndex c2 = Some [2, 0] \<and>
         absent c2 ''b'' \<and> Get c2 ''a'' = Inr (c3, Val 1, True))"
proof -
  have m: "cache cache_ab = Some [''a'' \<mapsto> 0, ''b'' \<mapsto> 1]" by (simp add: cache_ab_def)
  have l: "lruIndex cache_ab = Some [1, 0]" by (simp add: cache_ab_def)
  have new: "[''a'' \<mapsto> 0, ''b'' \<mapsto> (1::nat)] ''c'' = None" by simp
  have cap: "0 < maxEntries cache_ab" by (simp add: cache_ab_def)
  have full: "maxEntries cache_ab < int (length [1, 0 :: nat]) + 1" by (simp add: cache_ab_def)
  have k1: "[''a'' \<mapsto> 0, ''b'' \<mapsto> (1::nat)] ''a'' = Some 0" by simp
  have lk: "linked cache_ab" by (rule wellformed_linked) (rule wellformed_cache_ab)
  note T = eviction_is_lru[OF lk m l new cap full, of "Val 3" 2]
  from T obtain c' en where A: "Set cache_ab ''c'' (Val 3) 2 = Inr c'"
      "elems cache_ab (last [1, 0]) = Some en" "lruIndex c' = Some (nextElem cache_ab # butlast [1, 0])"
      "cache c' = Some (([''a'' \<mapsto> 0, ''b'' \<mapsto> 1](''c'' \<mapsto> nextElem cache_ab))(key en := None))"
    by blast
  from A(2) have "key en = ''a''" by (auto simp: cache_ab_def)
  with A have A': "lruIndex c' = Some [2, 1]" "cache c' = Some [''b'' \<mapsto> 1, ''c'' \<mapsto> 2]"
    by (auto simp: cache_ab_def)
  have two: "2 \<le> length [1, 0 :: nat]" by simp
  from T[THEN conjunct2, rule_format, OF wellformed_cache_ab k1 two]
  obtain c1 c2 c3 en1 en2 where B:
      "Get cache_ab ''a'' = Inr (c1, val en1, True)" "elems cache_ab 0 = Some en1"
      "Set c1 ''c'' (Val 3) 2 = Inr c2"
      "elems cache_ab (last (remove1 0 [1, 0])) = Some en2"
      "lruIndex c2 = Some (nextElem cache_ab # 0 # butlast (remove1 0 [1, 0]))"
      "absent c2 (key en2)" "Get c2 ''a'' = Inr (c3, val en1, True)"
    by blast
  from B(2) have "val en1 = Val 1" by (auto simp: cache_ab_def)
  moreover from B(4) have "key en2 = ''b''" by (auto simp: cache_ab_def)
  ultimately have B': "Get cache_ab ''a'' = Inr (c1, Val 1, True)" "lruIndex c2 = Some [2, 0]"
      "absent c2 ''b''" "Get c2 ''a'' = Inr (c3, Val 1, True)"
    using B by (auto simp: cache_ab_def)
  from lk wellformed_cache_ab m l new cap full A(1) A' B' B(3) show ?thesis by blast
qed

subsection \<open>Write, then read, after a stale removal\<close>

text \<open>
  Claim C7 says that \<open>Set(k, v)\<close> followed at once by \<open>Get(k)\<close> returns \<open>(v, true)\<close>.
  The code evaluated, on the state the sweeper's stale removal leaves (the defect of claim
  C5): capacity 1, expiration 10; \<open>Set("a", 1)\<close> at time 0; the sweeper peeks element 0
  and at time 11 decides to remove it; \<open>Delete("a")\<close> and \<open>Set("a", 2)\<close> run before it
  takes the write lock; its removal of element 0 deletes key \<open>a\<close> from the map and
  leaves element 1, which carries \<open>a\<close>, in the list. Then \<open>Set("a", 3)\<close> pushes element
  2, the capacity check removes the back, element 1, and with it key \<open>a\<close> from the map;
  \<open>Get("a")\<close>, at once, misses.
\<close>

theorem Set_then_Get_after_stale_removal:
  "\<exists>c1 c2 c3 c4 c5.
      Set (New 1 10) ''a'' (Val (1::nat)) 0 = Inr c1 \<and>
      cleanExpired_peek c1 = Inr (Some (0, 10)) \<and>
      cleanExpired_next c1 (Some (0, 10)) 11 11 = Removal 0 \<and>
      Delete c1 ''a'' = Inr c2 \<and>
      Set c2 ''a'' (Val 2) 11 = Inr c3 \<and>
      removeElement c3 0 = Inr c4 \<and>
      lruIndex c4 = Some [1] \<and> cache c4 = Some Map.empty \<and> 0 \<le> maxEntries c4 \<and>
      Set c4 ''a'' (Val 3) 12 = Inr c5 \<and>
      lruIndex c5 = Some [2] \<and> cache c5 = Some Map.empty \<and>
      Get c5 ''a'' = Inr (c5, NilValue, False)"
  by (simp add: New_def Set_def Let_def PushFront_def sliceAppend_def
      cleanExpired_peek_def Add_def cleanExpired_next_def After_def Delete_def
      removeElement_def Remove_def Get_def removeOldest_def Back_def)

text \<open>
  The same state with capacity 2: the key read by \<open>Get\<close> is lost at the next insertion,
  because the element at the back carries the same key.
\<close>

lemma stale_back_evicts_read_key:
  "\<exists>c1 c2 c3 c4 c5 c6 c7.
      Set (New 2 10) ''a'' (Val (1::nat)) 0 = Inr c1 \<and>
      Delete c1 ''a'' = Inr c2 \<and>
      Set c2 ''a'' (Val 2) 11 = Inr c3 \<and>
      removeElement c3 0 = Inr c4 \<and>
      Set c4 ''a'' (Val 3) 12 = Inr c5 \<and>
      Get c5 ''a'' = Inr (c6, Val 3, True) \<and>
      Set c6 ''b'' (Val 4) 13 = Inr c7 \<and>
      lruIndex c7 = Some [3, 2] \<and>
      Get c7 ''a'' = Inr (c7, NilValue, False)"
  by (simp add: New_def Set_def Let_def PushFront_def sliceAppend_def Delete_def
      removeElement_def Remove_def Get_def removeOldest_def Back_def MoveToFront_def)

end
